theory Spec2Isabelle
  imports Complex_Main "HOL-Library.Sublist" "HOL-Library.Multiset"
begin

section \<open>JavaScript numbers\<close>

text \<open>
  The only non-integer arithmetic of the reconciliation engine is the single division in
  \<open>calculateNameSimilarity\<close>, the comparison of its result with \<open>0.5\<close> and the
  subtraction inside the sort comparator. The operands of the division are string lengths,
  hence exact integers. A number is modelled as a rational, or one of the three special
  values of IEEE arithmetic that a division of integers can produce. The rounding of the
  quotient to a double is not modelled: a double is the nearest representable number, the
  rounding is monotone and \<open>0.5\<close> is representable, so the comparisons of the reconciler
  come out as on the exact quotients as long as two different quotients differ by more
  than the spacing of the doubles, which is the case for names of any realistic length.
\<close>

datatype jsnum = NaN | PosInf | NegInf | Num rat

text \<open>\<open>a / b\<close> for two non-negative integers: \<open>0 / 0\<close> is \<open>NaN\<close>, \<open>a / 0\<close> is \<open>Infinity\<close>.\<close>

definition js_div :: "nat \<Rightarrow> nat \<Rightarrow> jsnum" where
  "js_div a b =
     (if b = 0 then (if a = 0 then NaN else PosInf)
      else Num (rat_of_nat a / rat_of_nat b))"

text \<open>\<open>a > b\<close>: every comparison with \<open>NaN\<close> is false.\<close>

fun js_gt :: "jsnum \<Rightarrow> jsnum \<Rightarrow> bool" where
  "js_gt NaN _ = False"
| "js_gt _ NaN = False"
| "js_gt PosInf PosInf = False"
| "js_gt PosInf _ = True"
| "js_gt NegInf _ = False"
| "js_gt (Num a) PosInf = False"
| "js_gt (Num a) NegInf = True"
| "js_gt (Num a) (Num b) = (b < a)"

text \<open>\<open>a - b\<close>.\<close>

fun js_sub :: "jsnum \<Rightarrow> jsnum \<Rightarrow> jsnum" where
  "js_sub NaN _ = NaN"
| "js_sub _ NaN = NaN"
| "js_sub PosInf PosInf = NaN"
| "js_sub NegInf NegInf = NaN"
| "js_sub PosInf _ = PosInf"
| "js_sub NegInf _ = NegInf"
| "js_sub (Num a) PosInf = NegInf"
| "js_sub (Num a) NegInf = PosInf"
| "js_sub (Num a) (Num b) = Num (a - b)"

text \<open>\<open>a == b\<close> on numbers: \<open>NaN\<close> is equal to nothing, not even to itself.\<close>

fun js_eq :: "jsnum \<Rightarrow> jsnum \<Rightarrow> bool" where
  "js_eq NaN _ = False"
| "js_eq _ NaN = False"
| "js_eq a b = (a = b)"

section \<open>Name similarity (mcp-server.ts, lines 918-938)\<close>

text \<open>
  \<open>longestCommonSubsequence\<close> allocates a \<open>(len1 + 1) \<times> (len2 + 1)\<close> matrix of zeros and
  fills it row by row. \<open>lcs_cell\<close> is the body of the inner loop: the assignment to
  \<open>matrix[i][j]\<close>. All indices the loops use are in range.
\<close>

definition lcs_cell :: "string \<Rightarrow> string \<Rightarrow> nat \<Rightarrow> nat \<Rightarrow> nat list list \<Rightarrow> nat list list" where
  "lcs_cell str1 str2 i j matrix =
     (if str1 ! (i - 1) = str2 ! (j - 1)
      then matrix[i := (matrix ! i)[j := matrix ! (i - 1) ! (j - 1) + 1]]
      else matrix[i := (matrix ! i)[j := max (matrix ! (i - 1) ! j) (matrix ! i ! (j - 1))]])"

definition lcs_row :: "string \<Rightarrow> string \<Rightarrow> nat \<Rightarrow> nat list list \<Rightarrow> nat list list" where
  "lcs_row str1 str2 i matrix = fold (lcs_cell str1 str2 i) [1..<length str2 + 1] matrix"

definition lcs_fill :: "string \<Rightarrow> string \<Rightarrow> nat list list" where
  "lcs_fill str1 str2 =
     fold (lcs_row str1 str2) [1..<length str1 + 1]
       (replicate (length str1 + 1) (replicate (length str2 + 1) 0))"

definition longestCommonSubsequence :: "string \<Rightarrow> string \<Rightarrow> nat" where
  "longestCommonSubsequence str1 str2 = lcs_fill str1 str2 ! length str1 ! length str2"

definition calculateNameSimilarity :: "string \<Rightarrow> string \<Rightarrow> jsnum" where
  "calculateNameSimilarity name1 name2 =
     (let lcs = longestCommonSubsequence name1 name2
      in js_div (2 * lcs) (length name1 + length name2))"

text \<open>
  The recurrence of the specification, on prefix lengths: \<open>lcs_rec a b i j\<close> is the table
  cell \<open>[i][j]\<close> as the specification defines it.
\<close>

fun lcs_rec :: "string \<Rightarrow> string \<Rightarrow> nat \<Rightarrow> nat \<Rightarrow> nat" where
  "lcs_rec a b 0 j = 0"
| "lcs_rec a b (Suc i) 0 = 0"
| "lcs_rec a b (Suc i) (Suc j) =
     (if a ! i = b ! j then lcs_rec a b i j + 1
      else max (lcs_rec a b i (Suc j)) (lcs_rec a b (Suc i) j))"

text \<open>
  The loop invariant of the table: the cells of the rows before \<open>i\<close>, and of row \<open>i\<close> up to
  column \<open>j\<close>, hold the recurrence; every other cell still holds its initial \<open>0\<close>.
\<close>

definition lcs_inv :: "string \<Rightarrow> string \<Rightarrow> nat \<Rightarrow> nat \<Rightarrow> nat list list \<Rightarrow> bool" where
  "lcs_inv a b i j m \<longleftrightarrow>
     length m = length a + 1 \<and>
     (\<forall>r \<le> length a. length (m ! r) = length b + 1) \<and>
     (\<forall>r \<le> length a. \<forall>c \<le> length b.
        m ! r ! c = (if r < i \<or> (r = i \<and> c \<le> j) then lcs_rec a b r c else 0))"

text \<open>
  What "longest common subsequence" means, independently of any table: \<open>n\<close> is the length
  of some common subsequence, and no common subsequence is longer.
\<close>

definition is_lcs_length :: "string \<Rightarrow> string \<Rightarrow> nat \<Rightarrow> bool" where
  "is_lcs_length a b n \<longleftrightarrow>
     (\<exists>c. subseq c a \<and> subseq c b \<and> length c = n) \<and>
     (\<forall>c. subseq c a \<and> subseq c b \<longrightarrow> length c \<le> n)"

section \<open>Data model of the reconciliation (mcp-server.ts, lines 795-916)\<close>

text \<open>
  The framework tag is validated against a fixed enumeration before it reaches the engine.
  A code component is the object literal that \<open>extractComponentInfo\<close> returns; a design
  component is an entry of the \<open>components\<close> object of the remote API, of which the
  reconciler reads \<open>name\<close> and \<open>description\<close> (which may be absent).
\<close>

datatype framework = React | Vue | Angular | Svelte | Vanilla

record CodeComponent =
  cc_name :: string
  cc_path :: string
  cc_framework :: framework
  cc_size :: nat
  cc_exports :: "string list"
  cc_props :: "string list"

record FigmaComponent =
  fc_name :: string
  fc_description :: "string option"

record ExactMatch =
  em_figma_id :: string
  em_figma_name :: string
  em_code_component :: CodeComponent
  em_confidence :: rat

record Suggestion =
  sg_component :: CodeComponent
  sg_similarity :: jsnum

record SimilarMatch =
  sm_figma_id :: string
  sm_figma_name :: string
  sm_suggestions :: "Suggestion list"

record MissingInCode =
  mc_figma_id :: string
  mc_figma_name :: string
  mc_description :: string

record MissingInFigma =
  mf_name :: string
  mf_path :: string
  mf_framework :: framework

record Mappings =
  exact_matches :: "ExactMatch list"
  similar_matches :: "SimilarMatch list"
  missing_in_code :: "MissingInCode list"
  missing_in_figma :: "MissingInFigma list"

section \<open>Library functions of the host language\<close>

text \<open>
  \<open>String.prototype.toLowerCase\<close> on code units below 256: the letters \<open>A\<close> to \<open>Z\<close> and the
  capital letters of the Latin-1 supplement (U+00C0 to U+00DE without the multiplication
  sign U+00D7) move up by 32; every other unit is kept.
\<close>

definition toLowerCase_unit :: "char \<Rightarrow> char" where
  "toLowerCase_unit c =
     (let n = (of_char c :: nat)
      in if (65 \<le> n \<and> n \<le> 90) \<or> (192 \<le> n \<and> n \<le> 222 \<and> n \<noteq> 215)
         then char_of (n + 32) else c)"

definition toLowerCase :: "string \<Rightarrow> string" where
  "toLowerCase s = map toLowerCase_unit s"

text \<open>
  \<open>Array.prototype.sort\<close> with a comparator. The sort is stable; the model is the stable
  insertion sort, where an element moves behind another one only when the comparator is
  positive on the pair (a \<open>NaN\<close> comparator result counts as \<open>0\<close>).
\<close>

fun insort_cmp :: "('a \<Rightarrow> 'a \<Rightarrow> jsnum) \<Rightarrow> 'a \<Rightarrow> 'a list \<Rightarrow> 'a list" where
  "insort_cmp cmp x [] = [x]"
| "insort_cmp cmp x (y # ys) =
     (if js_gt (cmp x y) (Num 0) then y # insort_cmp cmp x ys else x # y # ys)"

text \<open>The rational value of a finite number (used on finite numbers only).\<close>

fun num_of :: "jsnum \<Rightarrow> rat" where
  "num_of (Num q) = q"
| "num_of _ = 0"

definition js_sort :: "('a \<Rightarrow> 'a \<Rightarrow> jsnum) \<Rightarrow> 'a list \<Rightarrow> 'a list" where
  "js_sort cmp xs = foldr (insort_cmp cmp) xs []"

section \<open>The mapping reconciler (mcp-server.ts, lines 854-916)\<close>

text \<open>The candidates of one design component: map, filter, sort (lines 875-881).\<close>

definition scoredCandidates :: "string \<Rightarrow> CodeComponent list \<Rightarrow> Suggestion list" where
  "scoredCandidates figmaName codeComponents =
     map (\<lambda>cc. \<lparr>sg_component = cc,
                 sg_similarity = calculateNameSimilarity figmaName (toLowerCase (cc_name cc))\<rparr>)
       codeComponents"

definition similarMatches :: "string \<Rightarrow> CodeComponent list \<Rightarrow> Suggestion list" where
  "similarMatches figmaName codeComponents =
     js_sort (\<lambda>a b. js_sub (sg_similarity b) (sg_similarity a))
       (filter (\<lambda>match. js_gt (sg_similarity match) (Num (1 / 2)))
          (scoredCandidates figmaName codeComponents))"

text \<open>
  The callback of the \<open>forEach\<close> over \<open>Object.entries(figmaComponents)\<close>: it pushes one
  entry to one of the three groups of \<open>mappings\<close>.
\<close>

definition mapOne :: "CodeComponent list \<Rightarrow> Mappings \<Rightarrow> string \<times> FigmaComponent \<Rightarrow> Mappings" where
  "mapOne codeComponents mappings entry =
     (let figma_id = fst entry; figmaComponent = snd entry;
          figmaName = toLowerCase (fc_name figmaComponent)
      in case find (\<lambda>cc. toLowerCase (cc_name cc) = figmaName) codeComponents of
           Some exactMatch \<Rightarrow>
             mappings\<lparr>exact_matches := exact_matches mappings @
               [\<lparr>em_figma_id = figma_id, em_figma_name = fc_name figmaComponent,
                 em_code_component = exactMatch, em_confidence = 1\<rparr>]\<rparr>
         | None \<Rightarrow>
             (let similar = similarMatches figmaName codeComponents
              in if length similar > 0
                 then mappings\<lparr>similar_matches := similar_matches mappings @
                   [\<lparr>sm_figma_id = figma_id, sm_figma_name = fc_name figmaComponent,
                     sm_suggestions = take 3 similar\<rparr>]\<rparr>
                 else mappings\<lparr>missing_in_code := missing_in_code mappings @
                   [\<lparr>mc_figma_id = figma_id, mc_figma_name = fc_name figmaComponent,
                     mc_description =
                       (case fc_description figmaComponent of None \<Rightarrow> [] | Some d \<Rightarrow> d)\<rparr>]\<rparr>))"

text \<open>The names collected into the set \<open>mappedCodeComponents\<close> (lines 900-905).\<close>

definition mappedCodeComponents :: "Mappings \<Rightarrow> string list" where
  "mappedCodeComponents mappings =
     map (\<lambda>m. cc_name (em_code_component m)) (exact_matches mappings) @
     concat (map (\<lambda>m. map (\<lambda>s. cc_name (sg_component s)) (sm_suggestions m))
               (similar_matches mappings))"

text \<open>
  \<open>figmaComponents\<close> is the list \<open>Object.entries\<close> yields: the keys of an object are pairwise
  distinct. The flag \<open>includeProps\<close> is not read by the source.
\<close>

definition createComponentMappings ::
  "(string \<times> FigmaComponent) list \<Rightarrow> CodeComponent list \<Rightarrow> bool \<Rightarrow> Mappings" where
  "createComponentMappings figmaComponents codeComponents includeProps =
     (let mappings = foldl (mapOne codeComponents)
            \<lparr>exact_matches = [], similar_matches = [], missing_in_code = [],
             missing_in_figma = []\<rparr> figmaComponents
      in mappings\<lparr>missing_in_figma :=
           map (\<lambda>cc. \<lparr>mf_name = cc_name cc, mf_path = cc_path cc,
                       mf_framework = cc_framework cc\<rparr>)
             (filter (\<lambda>cc. cc_name cc \<notin> set (mappedCodeComponents mappings)) codeComponents)\<rparr>)"

definition all_Num :: "Suggestion list \<Rightarrow> bool" where
  "all_Num xs \<longleftrightarrow> (\<forall>s \<in> set xs. \<exists>q. sg_similarity s = Num q)"

text \<open>How often a design component id occurs in the three groups together.\<close>

definition group_count :: "string \<Rightarrow> Mappings \<Rightarrow> nat" where
  "group_count figma_id m =
     length (filter (\<lambda>e. em_figma_id e = figma_id) (exact_matches m)) +
     length (filter (\<lambda>e. sm_figma_id e = figma_id) (similar_matches m)) +
     length (filter (\<lambda>e. mc_figma_id e = figma_id) (missing_in_code m))"

text \<open>A small reconciliation run, used to instantiate the theorems below.\<close>

definition component :: "string \<Rightarrow> string \<Rightarrow> CodeComponent" where
  "component n p = \<lparr>cc_name = n, cc_path = p, cc_framework = React, cc_size = 0,
                    cc_exports = [], cc_props = []\<rparr>"

definition example_code :: "CodeComponent list" where
  "example_code = [component ''Ab'' ''src/Ab.tsx'', component ''ab'' ''lib/ab.tsx'',
                   component ''Abc'' ''src/Abc.tsx'', component ''zz'' ''src/zz.tsx'',
                   component ''abd'' ''src/abd.tsx'']"

definition example_figma :: "(string \<times> FigmaComponent) list" where
  "example_figma =
     [(''1:1'', \<lparr>fc_name = ''AB'', fc_description = Some ''primary''\<rparr>),
      (''1:2'', \<lparr>fc_name = ''ABCD'', fc_description = None\<rparr>),
      (''1:3'', \<lparr>fc_name = ''Q'', fc_description = None\<rparr>)]"

section \<open>Regular expressions\<close>

text \<open>
  The extractor tests and scans file contents with regular expressions. A pattern is
  embedded as a backtracking matcher: applied to the text that starts at the current
  position, it returns every way the pattern can match there, as the captured groups and
  the number of characters consumed, in the order in which a backtracking engine tries
  them (a greedy quantifier tries its longest repetition first, an alternation its left
  branch first). None of the patterns of the source has an anchor, a word boundary or a
  look-around, so a match depends on the text from its start position on only.
\<close>

type_synonym matcher = "string \<Rightarrow> (string list \<times> nat) list"

text \<open>The character classes \<open>\s\<close>, \<open>\w\<close> and \<open>[a-zA-Z]\<close>, on code units below 256.\<close>

definition isSpace :: "char \<Rightarrow> bool" where
  "isSpace c = ((of_char c :: nat) \<in> {9, 10, 11, 12, 13, 32, 160})"

definition isWord :: "char \<Rightarrow> bool" where
  "isWord c =
     (let n = (of_char c :: nat)
      in (48 \<le> n \<and> n \<le> 57) \<or> (65 \<le> n \<and> n \<le> 90) \<or> n = 95 \<or> (97 \<le> n \<and> n \<le> 122))"

definition isAlpha :: "char \<Rightarrow> bool" where
  "isAlpha c =
     (let n = (of_char c :: nat) in (65 \<le> n \<and> n \<le> 90) \<or> (97 \<le> n \<and> n \<le> 122))"

text \<open>
  A literal, a single character of a class, a greedy repetition of a class with a lower
  bound (\<open>+\<close> is \<open>many 1\<close>, \<open>*\<close> is \<open>many 0\<close>), concatenation, alternation, the greedy
  option \<open>?\<close> and a capturing group. An alternation reports the groups of the branch that
  matched only.
\<close>

definition lit :: "string \<Rightarrow> matcher" where
  "lit w s = (if take (length w) s = w then [([], length w)] else [])"

definition one :: "(char \<Rightarrow> bool) \<Rightarrow> matcher" where
  "one P s = (case s of [] \<Rightarrow> [] | c # _ \<Rightarrow> if P c then [([], 1)] else [])"

definition many :: "nat \<Rightarrow> (char \<Rightarrow> bool) \<Rightarrow> matcher" where
  "many lo P s = map (\<lambda>k. ([], k)) (rev [lo..<Suc (length (takeWhile P s))])"

definition seq :: "matcher \<Rightarrow> matcher \<Rightarrow> matcher" where
  "seq m1 m2 s =
     concat (map (\<lambda>(c1, n1). map (\<lambda>(c2, n2). (c1 @ c2, n1 + n2)) (m2 (drop n1 s))) (m1 s))"

definition alt :: "matcher \<Rightarrow> matcher \<Rightarrow> matcher" where
  "alt m1 m2 s = m1 s @ m2 s"

definition opt :: "matcher \<Rightarrow> matcher" where
  "opt m s = m s @ [([], 0)]"

definition cap :: "matcher \<Rightarrow> matcher" where
  "cap m s = map (\<lambda>(cs, n). (take n s # cs, n)) (m s)"

definition seqs :: "matcher list \<Rightarrow> matcher" where
  "seqs ms = foldr seq ms (\<lambda>s. [([], 0)])"

definition alts :: "matcher list \<Rightarrow> matcher" where
  "alts ms = foldr alt ms (\<lambda>s. [])"

text \<open>
  \<open>RegExp.prototype.exec\<close> from a given position: the leftmost start at which the pattern
  matches, with the first match in backtracking order there. The result is the offset of
  the match from that position, its groups and its length.
\<close>

fun search :: "matcher \<Rightarrow> string \<Rightarrow> (nat \<times> string list \<times> nat) option" where
  "search m [] = (case m [] of [] \<Rightarrow> None | (c, n) # _ \<Rightarrow> Some (0, c, n))"
| "search m (x # t) =
     (case m (x # t) of
        [] \<Rightarrow> map_option (\<lambda>(i, c, n). (Suc i, c, n)) (search m t)
      | (c, n) # _ \<Rightarrow> Some (0, c, n))"

definition regex_test :: "matcher \<Rightarrow> string \<Rightarrow> bool" where
  "regex_test m s = (search m s \<noteq> None)"

section \<open>The component extractor (mcp-server.ts, lines 795-852)\<close>

text \<open>\<open>/export\s+(?:default\s+)?(?:function|const|class)\s+(\w+)/g\<close>\<close>

definition exportRegex :: matcher where
  "exportRegex =
     seqs [lit ''export'', many 1 isSpace, opt (seqs [lit ''default'', many 1 isSpace]),
           alts [lit ''function'', lit ''const'', lit ''class''], many 1 isSpace,
           cap (many 1 isWord)]"

text \<open>\<open>/(?:interface|type)\s+\w*Props\s*\{([^}]+)\}/g\<close>\<close>

definition propsRegex :: matcher where
  "propsRegex =
     seqs [alts [lit ''interface'', lit ''type''], many 1 isSpace, many 0 isWord, lit ''Props'',
           many 0 isSpace, lit ''{'', cap (many 1 (\<lambda>c. c \<noteq> CHR ''}'')), lit ''}'']"

text \<open>\<open>/(\w+)(?:\?)?:/g\<close>\<close>

definition propNameRegex :: matcher where
  "propNameRegex = seqs [cap (many 1 isWord), opt (lit ''?''), lit '':'']"

text \<open>
  The detection patterns of \<open>extractComponentInfo\<close>, by framework (lines 799-805). The
  patterns are created anew by each call, so \<open>pattern.test(content)\<close> searches from the
  start of the content; the groups of a detection pattern are never read.
\<close>

fun patterns :: "framework \<Rightarrow> matcher" where
  "patterns React =
     alt (seqs [lit ''export'', many 1 isSpace, opt (seqs [lit ''default'', many 1 isSpace]),
                alts [lit ''function'', lit ''const'', lit ''class''], many 1 isSpace,
                cap (many 1 isWord)])
         (seqs [lit ''function'', many 1 isSpace, cap (many 1 isWord), many 0 isSpace, lit ''(''])"
| "patterns Vue =
     alt (lit ''<template>'')
         (seqs [lit ''export'', many 1 isSpace, lit ''default'', many 0 isSpace, lit ''{''])"
| "patterns Angular = seqs [lit ''@Component'', many 0 isSpace, lit ''('']"
| "patterns Svelte = alts [lit ''<script>'', lit ''<style>'', seqs [lit ''<'', one isAlpha]]"
| "patterns Vanilla =
     alt (seqs [lit ''class'', many 1 isSpace, cap (many 1 isWord)])
         (seqs [lit ''function'', many 1 isSpace, cap (many 1 isWord)])"

text \<open>
  The loop \<open>while ((match = exportRegex.exec(content)) !== null) exports.push(match[1])\<close>:
  each call resumes at the end of the previous match. Group 1 takes part in every match of
  the pattern. The loop ends because every match consumes the word \<open>export\<close>.
\<close>

function exportsFrom :: "string \<Rightarrow> string list" where
  "exportsFrom content =
     (case search exportRegex content of
        None \<Rightarrow> []
      | Some (i, caps, n) \<Rightarrow> (caps ! 0) # exportsFrom (drop (i + n) content))"
  by pat_completeness auto
termination
proof (relation "measure length")
  show "wf (measure length)" by simp
next
  fix content :: string and x y i caps n
  assume found: "search exportRegex content = Some x" and x: "(i, y) = x" and y: "(caps, n) = y"
  have at: "search m s = Some (j, c, k) \<Longrightarrow> (c, k) \<in> set (m (drop j s))"
    for m :: matcher and s j c k
  proof (induction s arbitrary: j)
    case Nil
    then show ?case by (auto split: list.splits)
  next
    case (Cons a s)
    then show ?case by (cases "m (a # s)") auto
  qed
  have "(caps, n) \<in> set (exportRegex (drop i content))"
    using found x y at[of exportRegex content i caps n] by simp
  then have "0 < n" and "drop i content \<noteq> []"
    by (auto simp: exportRegex_def seqs_def seq_def lit_def split: if_splits)
  then show "(drop (i + n) content, content) \<in> measure length" by auto
qed

definition extractExports :: "string \<Rightarrow> framework \<Rightarrow> string list" where
  "extractExports content framework = exportsFrom content"

text \<open>
  \<open>propsContent.match(/(\w+)(?:\?)?:/g)\<close>: the texts of all matches from left to right, or
  \<open>null\<close> when there is none.
\<close>

function matchPropNames :: "string \<Rightarrow> string list" where
  "matchPropNames s =
     (case search propNameRegex s of
        None \<Rightarrow> []
      | Some (i, caps, n) \<Rightarrow> take n (drop i s) # matchPropNames (drop (i + n) s))"
  by pat_completeness auto
termination
proof (relation "measure length")
  show "wf (measure length)" by simp
next
  fix s :: string and x y i caps n
  assume found: "search propNameRegex s = Some x" and x: "(i, y) = x" and y: "(caps, n) = y"
  have at: "search m u = Some (j, c, k) \<Longrightarrow> (c, k) \<in> set (m (drop j u))"
    for m :: matcher and u j c k
  proof (induction u arbitrary: j)
    case Nil
    then show ?case by (auto split: list.splits)
  next
    case (Cons a u)
    then show ?case by (cases "m (a # u)") auto
  qed
  have "(caps, n) \<in> set (propNameRegex (drop i s))"
    using found x y at[of propNameRegex s i caps n] by simp
  then have "0 < n" and "drop i s \<noteq> []"
    by (auto simp: propNameRegex_def seqs_def seq_def cap_def many_def)
  then show "(drop (i + n) s, s) \<in> measure length" by auto
qed

definition matchPropNames_or_null :: "string \<Rightarrow> string list option" where
  "matchPropNames_or_null s = (let ms = matchPropNames s in if ms = [] then None else Some ms)"

text \<open>
  \<open>extractProps\<close> calls \<open>propsRegex.exec(content)\<close> once, on a fresh pattern; \<open>p.replace(/[\?:]/g, '')\<close>
  deletes every question mark and colon.
\<close>

definition extractProps :: "string \<Rightarrow> framework \<Rightarrow> string list" where
  "extractProps content framework =
     (if framework = React
      then (case search propsRegex content of
              None \<Rightarrow> []
            | Some (i, caps, n) \<Rightarrow>
                (let propsContent = caps ! 0
                 in case matchPropNames_or_null propsContent of
                      None \<Rightarrow> []
                    | Some propMatches \<Rightarrow>
                        map (filter (\<lambda>c. c \<noteq> CHR ''?'' \<and> c \<noteq> CHR '':'')) propMatches))
      else [])"

text \<open>
  \<open>path.basename(filePath, path.extname(filePath))\<close> for POSIX paths: the last segment of the
  path, without its extension. The extension starts at the last dot of the segment, unless
  that dot is its first character.
\<close>

definition basename :: "string \<Rightarrow> string" where
  "basename p =
     rev (takeWhile (\<lambda>c. c \<noteq> CHR ''/'') (dropWhile (\<lambda>c. c = CHR ''/'') (rev p)))"

definition extname :: "string \<Rightarrow> string" where
  "extname p =
     (let b = basename p; e = rev (takeWhile (\<lambda>c. c \<noteq> CHR ''.'') (rev b))
      in if CHR ''.'' \<notin> set b \<or> length e + 1 = length b \<or> b = ''..'' then []
         else drop (length b - length e - 1) b)"

text \<open>
  \<open>path.basename(p, ext)\<close>, for a suffix without a slash: a suffix that is the whole path
  gives the empty string; a suffix that is a proper end of the last segment is removed
  from it; any other suffix (the empty one, or the whole last segment of a longer path)
  leaves the last segment as it is.
\<close>

definition basename_without :: "string \<Rightarrow> string \<Rightarrow> string" where
  "basename_without p ext =
     (let b = basename p
      in if ext \<noteq> [] \<and> ext = p then []
         else if ext \<noteq> [] \<and> ext \<noteq> b \<and> suffix ext b then take (length b - length ext) b
         else b)"

definition extractComponentInfo :: "string \<Rightarrow> string \<Rightarrow> framework \<Rightarrow> CodeComponent option" where
  "extractComponentInfo filePath content framework =
     (let fileName = basename_without filePath (extname filePath)
      in if \<not> regex_test (patterns framework) content then None
         else Some \<lparr>cc_name = fileName, cc_path = filePath, cc_framework = framework,
                     cc_size = length content,
                     cc_exports = extractExports content framework,
                     cc_props = extractProps content framework\<rparr>)"

section \<open>The consistency score (mcp-server.ts, lines 688-717 and 1037-1059)\<close>

text \<open>
  A sub-analysis returns its counts and its issues. The report collects the issues of the
  enabled sub-analyses; its score is computed from the collected list. The two
  sub-analyses of the source are placeholders that report no issue; the report builder
  takes their results as arguments.
\<close>

record 'i Analysis =
  an_total :: nat
  an_consistent :: nat
  an_issues :: "'i list"

record 'i ConsistencyReport =
  consistency_score :: int
  issues :: "'i list option"
  recommendations :: "string list"

definition checkComponentConsistency :: "'i Analysis" where
  "checkComponentConsistency = \<lparr>an_total = 0, an_consistent = 0, an_issues = []\<rparr>"

definition checkStyleConsistency :: "'i Analysis" where
  "checkStyleConsistency = \<lparr>an_total = 0, an_consistent = 0, an_issues = []\<rparr>"

text \<open>\<open>report.issues?.length || 0\<close>: an absent list counts as no issue.\<close>

definition totalIssues :: "'i ConsistencyReport \<Rightarrow> nat" where
  "totalIssues report = (case issues report of None \<Rightarrow> 0 | Some l \<Rightarrow> length l)"

definition calculateConsistencyScore :: "'i ConsistencyReport \<Rightarrow> int" where
  "calculateConsistencyScore report = max 0 (100 - int (totalIssues report) * 10)"

text \<open>
  The recommendations (lines 1061-1075): one below a score of 70, one when there is an
  issue (\<open>report.issues?.length > 0\<close> is false for an absent list), and one always.
\<close>

definition generateConsistencyRecommendations :: "'i ConsistencyReport \<Rightarrow> string list" where
  "generateConsistencyRecommendations report =
     (if consistency_score report < 70
      then [''Consider refactoring components to match Figma designs more closely''] else []) @
     (if (case issues report of None \<Rightarrow> False | Some l \<Rightarrow> length l > 0)
      then [''Address the identified consistency issues to improve design-code alignment'']
      else []) @
     [''Regularly sync design changes with code implementations'']"

text \<open>
  The report of \<open>analyzeDesignCodeConsistency\<close> (lines 693-716): the issues of the enabled
  sub-analyses are pushed in turn, then the score and the recommendations are set.
\<close>

definition buildConsistencyReport ::
  "bool \<Rightarrow> bool \<Rightarrow> 'i Analysis \<Rightarrow> 'i Analysis \<Rightarrow> 'i ConsistencyReport" where
  "buildConsistencyReport check_components check_styles componentsAnalysis stylesAnalysis =
     (let r0 = \<lparr>consistency_score = 0, issues = Some [], recommendations = []\<rparr>;
          r1 = (if check_components
                then r0\<lparr>issues := map_option (\<lambda>l. l @ an_issues componentsAnalysis) (issues r0)\<rparr>
                else r0);
          r2 = (if check_styles
                then r1\<lparr>issues := map_option (\<lambda>l. l @ an_issues stylesAnalysis) (issues r1)\<rparr>
                else r1);
          r3 = r2\<lparr>consistency_score := calculateConsistencyScore r2\<rparr>
      in r3\<lparr>recommendations := generateConsistencyRecommendations r3\<rparr>)"

definition analyzeDesignCodeConsistency :: "bool \<Rightarrow> bool \<Rightarrow> 'i ConsistencyReport" where
  "analyzeDesignCodeConsistency check_styles check_components =
     buildConsistencyReport check_components check_styles
       checkComponentConsistency checkStyleConsistency"

text \<open>
  Properties of matchers used below. A matcher is bounded when it never consumes more than
  its input; it stops at a character when what follows an occurrence of that character has
  no influence on it; it ends with a character when each of its matches ends at the first
  occurrence of that character.
\<close>

definition bounded :: "matcher \<Rightarrow> bool" where
  "bounded m \<longleftrightarrow> (\<forall>s c n. (c, n) \<in> set (m s) \<longrightarrow> n \<le> length s)"

definition stops_at :: "char \<Rightarrow> matcher \<Rightarrow> bool" where
  "stops_at x m \<longleftrightarrow> bounded m \<and> (\<forall>u v. m (u @ x # v) = m u)"

definition ends_with :: "char \<Rightarrow> matcher \<Rightarrow> bool" where
  "ends_with x m \<longleftrightarrow>
     (\<forall>s. x \<notin> set s \<longrightarrow> m s = []) \<and>
     (\<forall>u v v'. x \<notin> set u \<longrightarrow> m (u @ x # v) = m (u @ x # v')) \<and>
     (\<forall>u v c n. x \<notin> set u \<longrightarrow> (c, n) \<in> set (m (u @ x # v)) \<longrightarrow> n = Suc (length u))"

text \<open>The shape of a match of the declaration pattern: one group, between the braces.\<close>

definition braced :: "string list \<Rightarrow> string \<Rightarrow> bool" where
  "braced c t \<longleftrightarrow> (\<exists>head body. c = [body] \<and> t = head @ ''{'' @ body @ ''}'')"

definition nocap :: "matcher \<Rightarrow> bool" where
  "nocap m \<longleftrightarrow> (\<forall>s c n. (c, n) \<in> set (m s) \<longrightarrow> c = [])"

definition braces :: "matcher \<Rightarrow> bool" where
  "braces m \<longleftrightarrow> (\<forall>s c n. (c, n) \<in> set (m s) \<longrightarrow> braced c (take n s))"

section \<open>The table computes the recurrence\<close>

lemma lcs_inv_init:
  "lcs_inv a b 0 (length b) (replicate (length a + 1) (replicate (length b + 1) 0))"
  unfolding lcs_inv_def by (simp del: replicate.simps)

lemma lcs_inv_next_row:
  assumes "lcs_inv a b i (length b) m"
  shows "lcs_inv a b (Suc i) 0 m"
  using assms unfolding lcs_inv_def
  by (auto simp: less_Suc_eq)

lemma lcs_inv_cell:
  assumes inv: "lcs_inv a b (Suc i) j m" and i: "Suc i \<le> length a" and j: "j < length b"
  shows "lcs_inv a b (Suc i) (Suc j) (lcs_cell a b (Suc i) (Suc j) m)"
proof -
  from inv have len: "length m = length a + 1"
    and rows: "\<And>r. r \<le> length a \<Longrightarrow> length (m ! r) = length b + 1"
    and cells: "\<And>r c. r \<le> length a \<Longrightarrow> c \<le> length b \<Longrightarrow>
        m ! r ! c = (if r < Suc i \<or> (r = Suc i \<and> c \<le> j) then lcs_rec a b r c else 0)"
    by (auto simp: lcs_inv_def)
  have d: "m ! i ! j = lcs_rec a b i j" using cells[of i j] i j by simp
  have u: "m ! i ! Suc j = lcs_rec a b i (Suc j)" using cells[of i "Suc j"] i j by simp
  have l: "m ! Suc i ! j = lcs_rec a b (Suc i) j" using cells[of "Suc i" j] i j by simp
  define v where "v = lcs_rec a b (Suc i) (Suc j)"
  have cell: "lcs_cell a b (Suc i) (Suc j) m = m[Suc i := (m ! Suc i)[Suc j := v]]"
    by (simp add: lcs_cell_def d u l v_def)
  show ?thesis
    unfolding lcs_inv_def cell
  proof (intro conjI allI impI)
    show "length (m[Suc i := (m ! Suc i)[Suc j := v]]) = length a + 1" by (simp add: len)
  next
    fix r assume "r \<le> length a"
    then show "length (m[Suc i := (m ! Suc i)[Suc j := v]] ! r) = length b + 1"
      using rows len by (cases "r = Suc i") simp_all
  next
    fix r c assume r: "r \<le> length a" and c: "c \<le> length b"
    show "m[Suc i := (m ! Suc i)[Suc j := v]] ! r ! c =
          (if r < Suc i \<or> r = Suc i \<and> c \<le> Suc j then lcs_rec a b r c else 0)"
    proof (cases "r = Suc i")
      case False
      then show ?thesis using cells[OF r c] len r by auto
    next
      case True
      show ?thesis
      proof (cases "c = Suc j")
        case True
        with \<open>r = Suc i\<close> show ?thesis using len i rows[of "Suc i"] j by (simp add: v_def)
      next
        case False
        with \<open>r = Suc i\<close> show ?thesis using cells[OF r c] len i by auto
      qed
    qed
  qed
qed

lemma lcs_inv_cells:
  assumes "lcs_inv a b (Suc i) 0 m" and "Suc i \<le> length a" and "k \<le> length b"
  shows "lcs_inv a b (Suc i) k (fold (lcs_cell a b (Suc i)) [1..<k + 1] m)"
  using assms(3)
proof (induction k)
  case 0
  then show ?case using assms(1) by simp
next
  case (Suc k)
  then have "lcs_inv a b (Suc i) k (fold (lcs_cell a b (Suc i)) [1..<k + 1] m)" by simp
  then have "lcs_inv a b (Suc i) (Suc k)
      (lcs_cell a b (Suc i) (Suc k) (fold (lcs_cell a b (Suc i)) [1..<k + 1] m))"
    using lcs_inv_cell assms(2) Suc.prems by simp
  then show ?case by simp
qed

lemma lcs_inv_row:
  assumes "lcs_inv a b i (length b) m" and "Suc i \<le> length a"
  shows "lcs_inv a b (Suc i) (length b) (lcs_row a b (Suc i) m)"
  unfolding lcs_row_def
  using lcs_inv_cells[OF lcs_inv_next_row[OF assms(1)] assms(2) order_refl] .

lemma lcs_inv_rows:
  assumes "k \<le> length a"
  shows "lcs_inv a b k (length b)
     (fold (lcs_row a b) [1..<k + 1] (replicate (length a + 1) (replicate (length b + 1) 0)))"
  using assms
proof (induction k)
  case 0
  then show ?case using lcs_inv_init by simp
next
  case (Suc k)
  then show ?case using lcs_inv_row by simp
qed

lemma longestCommonSubsequence_rec:
  "longestCommonSubsequence a b = lcs_rec a b (length a) (length b)"
  using lcs_inv_rows[of "length a" a b]
  by (simp add: longestCommonSubsequence_def lcs_fill_def lcs_inv_def)

lemma lcs_rec_zero_right [simp]: "lcs_rec a b i 0 = 0"
  by (cases i) simp_all

lemma lcs_rec_commute: "lcs_rec a b i j = lcs_rec b a j i"
  by (induction a b i j rule: lcs_rec.induct) (auto simp: max.commute)

lemma lcs_rec_le: "lcs_rec a b i j \<le> min i j"
  by (induction a b i j rule: lcs_rec.induct) auto

lemma lcs_rec_same: "i \<le> length a \<Longrightarrow> lcs_rec a a i i = i"
  by (induction i) auto

lemma subseq_snoc_cases:
  "subseq c (xs @ [x]) \<longleftrightarrow> subseq c xs \<or> (\<exists>d. c = d @ [x] \<and> subseq d xs)"
proof -
  have one: "subseq e [x] \<longleftrightarrow> e = [] \<or> e = [x]" for e
    by (cases e) (auto simp: subseq_Cons2_iff split: if_splits)
  show ?thesis
    by (auto simp: subseq_append_iff one)
qed

lemma lcs_rec_upper:
  assumes "i \<le> length a" and "j \<le> length b"
    and "subseq c (take i a)" and "subseq c (take j b)"
  shows "length c \<le> lcs_rec a b i j"
  using assms
proof (induction a b i j arbitrary: c rule: lcs_rec.induct)
  case (1 a b j)
  then show ?case by simp
next
  case (2 a b i)
  then show ?case by simp
next
  case (3 a b i j)
  from "3.prems" have ta: "take (Suc i) a = take i a @ [a ! i]"
    and tb: "take (Suc j) b = take j b @ [b ! j]"
    by (simp_all add: take_Suc_conv_app_nth)
  from "3.prems"(3) consider (skipa) "subseq c (take i a)"
    | (lasta) d where "c = d @ [a ! i]" "subseq d (take i a)"
    unfolding ta subseq_snoc_cases by blast
  then show ?case
  proof cases
    case skipa
    show ?thesis
    proof (cases "a ! i = b ! j")
      case False
      with "3.IH"(2)[OF False _ _ skipa "3.prems"(4)] "3.prems" show ?thesis by simp
    next
      case True
      from "3.prems"(4) consider (skipb) "subseq c (take j b)"
        | (lastb) e where "c = e @ [b ! j]" "subseq e (take j b)"
        unfolding tb subseq_snoc_cases by blast
      then show ?thesis
      proof cases
        case skipb
        with "3.IH"(1)[OF True _ _ skipa skipb] "3.prems" True show ?thesis by simp
      next
        case lastb
        have "subseq e (take i a)"
          using skipa lastb(1) by (metis subseq_order.trans subseq_rev_drop_many subseq_order.refl)
        with "3.IH"(1)[OF True _ _ this lastb(2)] "3.prems" True lastb(1) show ?thesis by simp
      qed
    qed
  next
    case lasta
    show ?thesis
    proof (cases "a ! i = b ! j")
      case True
      from "3.prems"(4) have "subseq d (take j b)"
        unfolding tb lasta(1) True by simp
      with "3.IH"(1)[OF True _ _ lasta(2) this] "3.prems" True lasta(1) show ?thesis by simp
    next
      case False
      from "3.prems"(4) have "subseq c (take j b)"
        unfolding tb subseq_snoc_cases using lasta(1) False by auto
      with "3.IH"(3)[OF False _ _ "3.prems"(3) this] "3.prems" False show ?thesis by simp
    qed
  qed
qed

lemma lcs_rec_attained:
  assumes "i \<le> length a" and "j \<le> length b"
  shows "\<exists>c. subseq c (take i a) \<and> subseq c (take j b) \<and> length c = lcs_rec a b i j"
  using assms
proof (induction a b i j rule: lcs_rec.induct)
  case (1 a b j)
  then show ?case by simp
next
  case (2 a b i)
  then show ?case by simp
next
  case (3 a b i j)
  from "3.prems" have ta: "take (Suc i) a = take i a @ [a ! i]"
    and tb: "take (Suc j) b = take j b @ [b ! j]"
    by (simp_all add: take_Suc_conv_app_nth)
  show ?case
  proof (cases "a ! i = b ! j")
    case True
    with "3.IH"(1) "3.prems" obtain c where
      c: "subseq c (take i a)" "subseq c (take j b)" "length c = lcs_rec a b i j"
      by auto
    have "subseq (c @ [a ! i]) (take (Suc i) a)" "subseq (c @ [a ! i]) (take (Suc j) b)"
      using c True by (simp_all add: ta tb)
    moreover have "length (c @ [a ! i]) = lcs_rec a b (Suc i) (Suc j)"
      using c True by simp
    ultimately show ?thesis by blast
  next
    case False
    from "3.IH"(2)[OF False] "3.prems" obtain c where
      c: "subseq c (take i a)" "subseq c (take (Suc j) b)" "length c = lcs_rec a b i (Suc j)"
      by auto
    from "3.IH"(3)[OF False] "3.prems" obtain d where
      d: "subseq d (take (Suc i) a)" "subseq d (take j b)" "length d = lcs_rec a b (Suc i) j"
      by auto
    have c': "subseq c (take (Suc i) a)" using c(1) unfolding ta by (rule subseq_rev_drop_many)
    have d': "subseq d (take (Suc j) b)" using d(2) unfolding tb by (rule subseq_rev_drop_many)
    show ?thesis
    proof (cases "lcs_rec a b i (Suc j) \<le> lcs_rec a b (Suc i) j")
      case True
      with d d' False show ?thesis by (auto simp: max_def)
    next
      case False
      with c c' \<open>a ! i \<noteq> b ! j\<close> show ?thesis by (auto simp: max_def)
    qed
  qed
qed

lemma lcs_rec_is_lcs_length: "is_lcs_length a b (lcs_rec a b (length a) (length b))"
  unfolding is_lcs_length_def
  using lcs_rec_attained[of "length a" a "length b" b] lcs_rec_upper[of "length a" a "length b" b]
  by auto

lemma calculateNameSimilarity_unfold:
  "calculateNameSimilarity a b =
     js_div (2 * lcs_rec a b (length a) (length b)) (length a + length b)"
  by (simp add: calculateNameSimilarity_def longestCommonSubsequence_rec)

section \<open>Claims about the name similarity\<close>

text \<open>
  C3, as stated: the similarity of two empty strings is 0, the division being guarded.
  The source divides without a guard, so the both-empty input yields \<open>0 / 0 = NaN\<close>.
\<close>

theorem similarity_empty_counterexample:
  "calculateNameSimilarity [] [] = NaN \<and> calculateNameSimilarity [] [] \<noteq> Num 0"
  by (simp add: calculateNameSimilarity_unfold js_div_def)

text \<open>
  C3, amended: \<open>calculateNameSimilarity("", "")\<close> performs the unguarded division \<open>0 / 0\<close>
  and returns \<open>NaN\<close>, which is not greater than \<open>0.5\<close>; no other input yields \<open>NaN\<close>.
\<close>

theorem similarity_NaN_iff_both_empty:
  "(calculateNameSimilarity a b = NaN \<longleftrightarrow> a = [] \<and> b = []) \<and>
   \<not> js_gt (calculateNameSimilarity [] []) (Num (1 / 2))"
  by (auto simp: calculateNameSimilarity_unfold js_div_def)

text \<open>
  C4: for strings not both empty the similarity is \<open>2 \<times> |LCS| / (|a| + |b|)\<close>, with
  \<open>|LCS|\<close> the value of the recurrence, which is the length of a longest common
  subsequence; the result lies in \<open>[0, 1]\<close>, and a non-empty string has similarity 1 with
  itself.
\<close>

theorem similarity_formula:
  assumes "\<not> (a = [] \<and> b = [])"
  shows "calculateNameSimilarity a b =
           Num (2 * rat_of_nat (lcs_rec a b (length a) (length b)) / rat_of_nat (length a + length b)) \<and>
         is_lcs_length a b (lcs_rec a b (length a) (length b)) \<and>
         (\<exists>q. calculateNameSimilarity a b = Num q \<and> 0 \<le> q \<and> q \<le> 1) \<and>
         (a \<noteq> [] \<longrightarrow> calculateNameSimilarity a a = Num 1)"
proof -
  let ?L = "lcs_rec a b (length a) (length b)"
  from assms have pos: "0 < length a + length b" by auto
  have eq: "calculateNameSimilarity a b = Num (2 * rat_of_nat ?L / rat_of_nat (length a + length b))"
    using pos by (simp add: calculateNameSimilarity_unfold js_div_def)
  have "?L \<le> min (length a) (length b)" by (rule lcs_rec_le)
  then have "2 * ?L \<le> length a + length b" by simp
  then have "rat_of_nat (2 * ?L) \<le> rat_of_nat (length a + length b)"
    by (simp only: of_nat_le_iff)
  then have le1: "2 * rat_of_nat ?L / rat_of_nat (length a + length b) \<le> 1"
    using pos by (simp add: divide_le_eq)
  have ge0: "0 \<le> 2 * rat_of_nat ?L / rat_of_nat (length a + length b)"
    by simp
  have self: "calculateNameSimilarity a a = Num 1" if "a \<noteq> []"
    using that by (simp add: calculateNameSimilarity_unfold js_div_def lcs_rec_same)
  from eq le1 ge0 self lcs_rec_is_lcs_length show ?thesis by blast
qed

theorem similarity_formula_witness:
  "\<not> (''ab'' = [] \<and> ''ba'' = []) \<and> calculateNameSimilarity ''ab'' ''ba'' = Num (1 / 2) \<and>
   calculateNameSimilarity ''ab'' ''ab'' = Num 1"
proof -
  have h: "\<not> (''ab'' = [] \<and> ''ba'' = [])" by simp
  have L: "lcs_rec ''ab'' ''ba'' (length ''ab'') (length ''ba'') = 1" by code_simp
  from similarity_formula[OF h] L show ?thesis by simp
qed

lemma similarity_same_value:
  "calculateNameSimilarity a b = calculateNameSimilarity b a"
  by (simp add: calculateNameSimilarity_unfold lcs_rec_commute[of a b] add.commute)

text \<open>
  C5, as stated: for all strings \<open>a\<close> and \<open>b\<close> the similarity of \<open>a\<close> and \<open>b\<close> equals the
  similarity of \<open>b\<close> and \<open>a\<close>. For two empty strings both calls return \<open>NaN\<close>, and \<open>NaN\<close> is
  not equal to \<open>NaN\<close>.
\<close>

theorem similarity_symmetric_counterexample:
  "\<not> js_eq (calculateNameSimilarity [] []) (calculateNameSimilarity [] [])"
  by (simp add: calculateNameSimilarity_unfold js_div_def)

text \<open>
  C5, amended: \<open>calculateNameSimilarity(a, b) == calculateNameSimilarity(b, a)\<close> holds exactly
  for the strings \<open>a\<close> and \<open>b\<close> that are not both empty.
\<close>

theorem similarity_symmetric_unless_both_empty:
  "js_eq (calculateNameSimilarity a b) (calculateNameSimilarity b a) \<longleftrightarrow> \<not> (a = [] \<and> b = [])"
proof (cases "a = [] \<and> b = []")
  case True
  then show ?thesis by (simp add: calculateNameSimilarity_unfold js_div_def)
next
  case False
  then have pos: "0 < length a + length b" by auto
  have "calculateNameSimilarity b a = calculateNameSimilarity a b"
    by (rule similarity_same_value[symmetric])
  moreover from pos have "\<exists>q. calculateNameSimilarity a b = Num q"
    by (simp add: calculateNameSimilarity_unfold js_div_def)
  ultimately show ?thesis using False by auto
qed

theorem similarity_symmetric_unless_both_empty_witness:
  "js_eq (calculateNameSimilarity ''ab'' ''ba'') (calculateNameSimilarity ''ba'' ''ab'')"
  using similarity_symmetric_unless_both_empty[of "''ab''" "''ba''"] by simp

section \<open>Properties of the reconciler\<close>

lemma mapOne_cases:
  "mapOne code m e =
     (case find (\<lambda>cc. toLowerCase (cc_name cc) = toLowerCase (fc_name (snd e))) code of
        Some exactMatch \<Rightarrow>
          m\<lparr>exact_matches := exact_matches m @
            [\<lparr>em_figma_id = fst e, em_figma_name = fc_name (snd e),
              em_code_component = exactMatch, em_confidence = 1\<rparr>]\<rparr>
      | None \<Rightarrow>
          if similarMatches (toLowerCase (fc_name (snd e))) code \<noteq> []
          then m\<lparr>similar_matches := similar_matches m @
            [\<lparr>sm_figma_id = fst e, sm_figma_name = fc_name (snd e),
              sm_suggestions = take 3 (similarMatches (toLowerCase (fc_name (snd e))) code)\<rparr>]\<rparr>
          else m\<lparr>missing_in_code := missing_in_code m @
            [\<lparr>mc_figma_id = fst e, mc_figma_name = fc_name (snd e),
              mc_description = (case fc_description (snd e) of None \<Rightarrow> [] | Some d \<Rightarrow> d)\<rparr>]\<rparr>)"
  by (simp add: mapOne_def Let_def split: option.splits)

lemma group_count_mapOne:
  "group_count i (mapOne code m e) = group_count i m + (if fst e = i then 1 else 0)"
  by (simp add: mapOne_cases group_count_def split: option.splits)

lemma group_count_foldl:
  "group_count i (foldl (mapOne code) m es) = group_count i m + count_list (map fst es) i"
  by (induction es arbitrary: m) (simp_all add: group_count_mapOne)

lemma createComponentMappings_groups:
  "exact_matches (createComponentMappings figma code ip) =
     exact_matches (foldl (mapOne code)
       \<lparr>exact_matches = [], similar_matches = [], missing_in_code = [], missing_in_figma = []\<rparr> figma)"
  "similar_matches (createComponentMappings figma code ip) =
     similar_matches (foldl (mapOne code)
       \<lparr>exact_matches = [], similar_matches = [], missing_in_code = [], missing_in_figma = []\<rparr> figma)"
  "missing_in_code (createComponentMappings figma code ip) =
     missing_in_code (foldl (mapOne code)
       \<lparr>exact_matches = [], similar_matches = [], missing_in_code = [], missing_in_figma = []\<rparr> figma)"
  by (simp_all add: createComponentMappings_def Let_def)

lemma group_count_create:
  "group_count i (createComponentMappings figma code ip) = count_list (map fst figma) i"
proof -
  have "group_count i (createComponentMappings figma code ip) =
        group_count i (foldl (mapOne code)
          \<lparr>exact_matches = [], similar_matches = [], missing_in_code = [], missing_in_figma = []\<rparr> figma)"
    by (simp add: group_count_def createComponentMappings_groups)
  then show ?thesis by (simp add: group_count_foldl) (simp add: group_count_def)
qed

lemma count_list_distinct:
  "distinct xs \<Longrightarrow> x \<in> set xs \<Longrightarrow> count_list xs x = 1"
  by (induction xs) (auto simp: count_list_0_iff)

lemma mapOne_keeps:
  "set (exact_matches m) \<subseteq> set (exact_matches (mapOne code m e))"
  "set (similar_matches m) \<subseteq> set (similar_matches (mapOne code m e))"
  "set (missing_in_code m) \<subseteq> set (missing_in_code (mapOne code m e))"
  by (auto simp: mapOne_cases split: option.splits)

lemma foldl_mapOne_keeps:
  "set (exact_matches m) \<subseteq> set (exact_matches (foldl (mapOne code) m es))"
  "set (similar_matches m) \<subseteq> set (similar_matches (foldl (mapOne code) m es))"
  "set (missing_in_code m) \<subseteq> set (missing_in_code (foldl (mapOne code) m es))"
proof (induction es arbitrary: m)
  case Nil
  { case 1 show ?case by simp }
  { case 2 show ?case by simp }
  { case 3 show ?case by simp }
next
  case (Cons e es)
  { case 1 show ?case using mapOne_keeps(1)[of m code e] Cons.IH(1)[of "mapOne code m e"] by auto }
  { case 2 show ?case using mapOne_keeps(2)[of m code e] Cons.IH(2)[of "mapOne code m e"] by auto }
  { case 3 show ?case using mapOne_keeps(3)[of m code e] Cons.IH(3)[of "mapOne code m e"] by auto }
qed

lemma foldl_mapOne_step:
  assumes "e \<in> set es"
  obtains m' where
    "set (exact_matches (mapOne code m' e)) \<subseteq> set (exact_matches (foldl (mapOne code) m es))"
    "set (similar_matches (mapOne code m' e)) \<subseteq> set (similar_matches (foldl (mapOne code) m es))"
    "set (missing_in_code (mapOne code m' e)) \<subseteq> set (missing_in_code (foldl (mapOne code) m es))"
proof -
  from assms obtain pre post where es: "es = pre @ e # post" by (auto dest: split_list)
  let ?m' = "foldl (mapOne code) m pre"
  have "foldl (mapOne code) m es = foldl (mapOne code) (mapOne code ?m' e) post"
    by (simp add: es)
  then show ?thesis using that[of ?m'] foldl_mapOne_keeps[of "mapOne code ?m' e" code post] by simp
qed

lemma similarity_not_inf:
  "calculateNameSimilarity a b \<noteq> PosInf" "calculateNameSimilarity a b \<noteq> NegInf"
  using lcs_rec_le[of a b "length a" "length b"]
  by (auto simp: calculateNameSimilarity_unfold js_div_def)

lemma similarity_gt_half_Num:
  assumes "js_gt (calculateNameSimilarity a b) (Num (1 / 2))"
  shows "\<exists>q. calculateNameSimilarity a b = Num q"
  using assms similarity_not_inf[of a b]
  by (cases "calculateNameSimilarity a b") auto

lemma insort_cmp_insort_key:
  assumes "all_Num (x # ys)"
  shows "insort_cmp (\<lambda>a b. js_sub (sg_similarity b) (sg_similarity a)) x ys =
         insort_key (\<lambda>s. - num_of (sg_similarity s)) x ys"
  using assms
proof (induction ys)
  case Nil
  then show ?case by simp
next
  case (Cons y ys)
  from Cons.prems obtain qx qy where q: "sg_similarity x = Num qx" "sg_similarity y = Num qy"
    by (auto simp: all_Num_def)
  from Cons.prems have "all_Num (x # ys)" by (auto simp: all_Num_def)
  with Cons.IH q show ?case by (auto simp: not_less)
qed

lemma js_sort_sort_key:
  assumes "all_Num xs"
  shows "js_sort (\<lambda>a b. js_sub (sg_similarity b) (sg_similarity a)) xs =
         sort_key (\<lambda>s. - num_of (sg_similarity s)) xs"
  using assms
proof (induction xs)
  case Nil
  then show ?case by (simp add: js_sort_def)
next
  case (Cons x xs)
  from Cons.prems have xs: "all_Num xs" by (auto simp: all_Num_def)
  with Cons.IH have eq: "foldr (insort_cmp (\<lambda>a b. js_sub (sg_similarity b) (sg_similarity a))) xs [] =
      sort_key (\<lambda>s. - num_of (sg_similarity s)) xs"
    by (simp add: js_sort_def)
  have "all_Num (x # sort_key (\<lambda>s. - num_of (sg_similarity s)) xs)"
    using Cons.prems by (auto simp: all_Num_def)
  from insort_cmp_insort_key[OF this] eq show ?case
    by (simp add: js_sort_def sort_key_def)
qed

lemma js_sort_descending:
  assumes "all_Num xs"
  defines "srt \<equiv> js_sort (\<lambda>a b. js_sub (sg_similarity b) (sg_similarity a)) xs"
  shows "mset srt = mset xs"
    and "sorted_wrt (\<lambda>x y. \<not> js_gt (sg_similarity y) (sg_similarity x)) srt"
    and "filter (\<lambda>s. sg_similarity s = v) srt = filter (\<lambda>s. sg_similarity s = v) xs"
proof -
  let ?f = "\<lambda>s. - num_of (sg_similarity s)"
  have srt: "srt = sort_key ?f xs" unfolding srt_def by (rule js_sort_sort_key[OF assms(1)])
  show perm: "mset srt = mset xs" by (simp add: srt)
  then have same: "set srt = set xs" by (metis set_mset_mset)
  have "sorted (map ?f srt)" by (simp add: srt)
  then have "sorted_wrt (\<lambda>x y. ?f x \<le> ?f y) srt" by (simp add: sorted_map)
  then show "sorted_wrt (\<lambda>x y. \<not> js_gt (sg_similarity y) (sg_similarity x)) srt"
  proof (rule sorted_wrt_mono_rel[rotated])
    fix x y assume "x \<in> set srt" "y \<in> set srt" "?f x \<le> ?f y"
    moreover from this same assms(1) obtain qx qy where
      "sg_similarity x = Num qx" "sg_similarity y = Num qy"
      unfolding all_Num_def by blast
    ultimately show "\<not> js_gt (sg_similarity y) (sg_similarity x)" by simp
  qed
  show "filter (\<lambda>s. sg_similarity s = v) srt = filter (\<lambda>s. sg_similarity s = v) xs"
  proof (cases v)
    case (Num q)
    have "filter (\<lambda>s. sg_similarity s = v) srt = filter (\<lambda>s. ?f s = - q) srt"
      using same assms(1) unfolding all_Num_def Num by (intro filter_cong) auto
    also have "\<dots> = filter (\<lambda>s. ?f s = - q) xs"
      unfolding srt by (rule sort_key_stable)
    also have "\<dots> = filter (\<lambda>s. sg_similarity s = v) xs"
      using assms(1) unfolding all_Num_def Num by (intro filter_cong) auto
    finally show ?thesis .
  next
    case NaN
    have "filter (\<lambda>s. sg_similarity s = v) srt = []" "filter (\<lambda>s. sg_similarity s = v) xs = []"
      using same assms(1) unfolding all_Num_def NaN by (auto simp: filter_empty_conv)
    then show ?thesis by simp
  next
    case PosInf
    have "filter (\<lambda>s. sg_similarity s = v) srt = []" "filter (\<lambda>s. sg_similarity s = v) xs = []"
      using same assms(1) unfolding all_Num_def PosInf by (auto simp: filter_empty_conv)
    then show ?thesis by simp
  next
    case NegInf
    have "filter (\<lambda>s. sg_similarity s = v) srt = []" "filter (\<lambda>s. sg_similarity s = v) xs = []"
      using same assms(1) unfolding all_Num_def NegInf by (auto simp: filter_empty_conv)
    then show ?thesis by simp
  qed
qed

lemma kept_all_Num:
  "all_Num (filter (\<lambda>match. js_gt (sg_similarity match) (Num (1 / 2))) (scoredCandidates n code))"
  unfolding all_Num_def scoredCandidates_def
  by (auto dest: similarity_gt_half_Num)

lemma similarMatches_Nil_iff:
  "similarMatches n code = [] \<longleftrightarrow>
   filter (\<lambda>match. js_gt (sg_similarity match) (Num (1 / 2))) (scoredCandidates n code) = []"
  using js_sort_descending(1)[OF kept_all_Num[of n code]]
  unfolding similarMatches_def by (metis mset_zero_iff mset_zero_iff_right)

text \<open>
  The reconciler scores candidates only after the search for an exact match failed; the
  two names then differ, so they are not both empty and every score is a finite number.
\<close>

lemma reconciler_scores_are_numbers:
  assumes "find (\<lambda>cc. toLowerCase (cc_name cc) = figmaName) codeComponents = None"
  shows "all_Num (scoredCandidates figmaName codeComponents)"
proof -
  have "\<exists>q. calculateNameSimilarity figmaName (toLowerCase (cc_name cc)) = Num q"
    if "cc \<in> set codeComponents" for cc
  proof -
    from assms that have "toLowerCase (cc_name cc) \<noteq> figmaName" by (auto simp: find_None_iff)
    then have "\<not> (figmaName = [] \<and> toLowerCase (cc_name cc) = [])" by auto
    then have "calculateNameSimilarity figmaName (toLowerCase (cc_name cc)) \<noteq> NaN"
      by (auto simp: calculateNameSimilarity_unfold js_div_def)
    with similarity_not_inf[of figmaName "toLowerCase (cc_name cc)"] show ?thesis
      by (cases "calculateNameSimilarity figmaName (toLowerCase (cc_name cc))") auto
  qed
  then show ?thesis unfolding all_Num_def scoredCandidates_def by auto
qed

lemma example_run:
  "createComponentMappings example_figma example_code True =
     \<lparr>exact_matches =
        [\<lparr>em_figma_id = ''1:1'', em_figma_name = ''AB'',
          em_code_component = component ''Ab'' ''src/Ab.tsx'', em_confidence = 1\<rparr>],
      similar_matches =
        [\<lparr>sm_figma_id = ''1:2'', sm_figma_name = ''ABCD'',
          sm_suggestions =
            [\<lparr>sg_component = component ''Abc'' ''src/Abc.tsx'', sg_similarity = Num (6 / 7)\<rparr>,
             \<lparr>sg_component = component ''abd'' ''src/abd.tsx'', sg_similarity = Num (6 / 7)\<rparr>,
             \<lparr>sg_component = component ''Ab'' ''src/Ab.tsx'', sg_similarity = Num (2 / 3)\<rparr>]\<rparr>],
      missing_in_code =
        [\<lparr>mc_figma_id = ''1:3'', mc_figma_name = ''Q'', mc_description = []\<rparr>],
      missing_in_figma =
        [\<lparr>mf_name = ''ab'', mf_path = ''lib/ab.tsx'', mf_framework = React\<rparr>,
         \<lparr>mf_name = ''zz'', mf_path = ''src/zz.tsx'', mf_framework = React\<rparr>]\<rparr>"
  by code_simp

lemma create_step:
  assumes "e \<in> set figma"
  shows "\<exists>m'.
    set (exact_matches (mapOne code m' e)) \<subseteq> set (exact_matches (createComponentMappings figma code ip)) \<and>
    set (similar_matches (mapOne code m' e)) \<subseteq> set (similar_matches (createComponentMappings figma code ip)) \<and>
    set (missing_in_code (mapOne code m' e)) \<subseteq> set (missing_in_code (createComponentMappings figma code ip))"
proof -
  let ?init = "\<lparr>exact_matches = [], similar_matches = [], missing_in_code = [], missing_in_figma = []\<rparr>"
  from assms obtain pre post where es: "figma = pre @ e # post" by (auto dest: split_list)
  let ?m' = "foldl (mapOne code) ?init pre"
  have eq: "foldl (mapOne code) ?init figma = foldl (mapOne code) (mapOne code ?m' e) post"
    by (simp add: es)
  have "set (exact_matches (mapOne code ?m' e)) \<subseteq> set (exact_matches (createComponentMappings figma code ip))"
    unfolding createComponentMappings_groups eq by (rule foldl_mapOne_keeps)
  moreover have "set (similar_matches (mapOne code ?m' e)) \<subseteq> set (similar_matches (createComponentMappings figma code ip))"
    unfolding createComponentMappings_groups eq by (rule foldl_mapOne_keeps)
  moreover have "set (missing_in_code (mapOne code ?m' e)) \<subseteq> set (missing_in_code (createComponentMappings figma code ip))"
    unfolding createComponentMappings_groups eq by (rule foldl_mapOne_keeps)
  ultimately show ?thesis by (intro exI[of _ ?m'] conjI)
qed

lemma find_first:
  "\<forall>y \<in> set pre. \<not> P y \<Longrightarrow> P x \<Longrightarrow> find P (pre @ x # post) = Some x"
  by (induction pre) auto

section \<open>Claims about the reconciler\<close>

text \<open>
  C1: in every reconciliation run each design component of the input collection (whose ids
  are the pairwise distinct keys of an object) occurs exactly once in the three groups
  \<open>exact_matches\<close>, \<open>similar_matches\<close> and \<open>missing_in_code\<close> taken together: in exactly one
  group, never in none and never in more than one.
\<close>

theorem each_design_component_in_exactly_one_group:
  assumes "distinct (map fst figmaComponents)"
    and "(figma_id, figmaComponent) \<in> set figmaComponents"
  shows "group_count figma_id (createComponentMappings figmaComponents codeComponents includeProps) = 1"
proof -
  from assms(2) have "figma_id \<in> set (map fst figmaComponents)" by force
  with assms(1) show ?thesis by (simp add: group_count_create count_list_distinct)
qed

theorem each_design_component_in_exactly_one_group_witness:
  "distinct (map fst example_figma) \<and>
   (''1:2'', \<lparr>fc_name = ''ABCD'', fc_description = None\<rparr>) \<in> set example_figma \<and>
   group_count ''1:2'' (createComponentMappings example_figma example_code True) = 1"
proof -
  have d: "distinct (map fst example_figma)" by (simp add: example_figma_def)
  have m: "(''1:2'', \<lparr>fc_name = ''ABCD'', fc_description = None\<rparr>) \<in> set example_figma"
    by (simp add: example_figma_def)
  from each_design_component_in_exactly_one_group[OF d m] d m show ?thesis by simp
qed

text \<open>
  C2: \<open>missing_in_figma\<close> is exactly the code components, in their order, whose name is
  neither the name of a chosen exact-match component nor a name in a suggestion list of a
  similar match; a code component whose name is so referenced is not in it.
\<close>

theorem missing_in_figma_is_unreferenced_code:
  fixes figmaComponents codeComponents includeProps
  defines "M \<equiv> createComponentMappings figmaComponents codeComponents includeProps"
  defines "referenced \<equiv>
     (\<lambda>m. cc_name (em_code_component m)) ` set (exact_matches M) \<union>
     (\<Union>m \<in> set (similar_matches M). (\<lambda>s. cc_name (sg_component s)) ` set (sm_suggestions m))"
  shows "missing_in_figma M =
           map (\<lambda>cc. \<lparr>mf_name = cc_name cc, mf_path = cc_path cc, mf_framework = cc_framework cc\<rparr>)
             (filter (\<lambda>cc. cc_name cc \<notin> referenced) codeComponents) \<and>
         (\<forall>cc \<in> set codeComponents.
            cc_name cc \<in> referenced \<longleftrightarrow> cc_name cc \<notin> mf_name ` set (missing_in_figma M))"
proof -
  let ?F = "foldl (mapOne codeComponents)
     \<lparr>exact_matches = [], similar_matches = [], missing_in_code = [], missing_in_figma = []\<rparr>
     figmaComponents"
  have ref: "referenced = set (mappedCodeComponents ?F)"
    unfolding referenced_def M_def createComponentMappings_groups mappedCodeComponents_def
    by auto
  have first: "missing_in_figma M =
      map (\<lambda>cc. \<lparr>mf_name = cc_name cc, mf_path = cc_path cc, mf_framework = cc_framework cc\<rparr>)
        (filter (\<lambda>cc. cc_name cc \<notin> referenced) codeComponents)"
    unfolding ref M_def by (simp add: createComponentMappings_def Let_def)
  have "mf_name ` set (missing_in_figma M) =
        {cc_name cc | cc. cc \<in> set codeComponents \<and> cc_name cc \<notin> referenced}"
    unfolding first by (auto simp: image_iff)
  then have "\<forall>cc \<in> set codeComponents.
      cc_name cc \<in> referenced \<longleftrightarrow> cc_name cc \<notin> mf_name ` set (missing_in_figma M)"
    by auto
  with first show ?thesis by blast
qed

theorem missing_in_figma_is_unreferenced_code_witness:
  "mf_name ` set (missing_in_figma (createComponentMappings example_figma example_code True)) =
     {''ab'', ''zz''}"
  using missing_in_figma_is_unreferenced_code[of example_figma example_code True]
  unfolding example_run by (simp add: example_code_def component_def)

text \<open>
  C6: a design component whose lower-cased name equals the lower-cased name of some code
  component is recorded as an exact match with the first such code component of the
  collection, with confidence 1.
\<close>

theorem exact_match_is_first_by_lowercase_name:
  assumes "(figma_id, figmaComponent) \<in> set figmaComponents"
    and "\<exists>cc \<in> set codeComponents.
           toLowerCase (cc_name cc) = toLowerCase (fc_name figmaComponent)"
  shows "\<exists>before exactMatch after.
           codeComponents = before @ exactMatch # after \<and>
           (\<forall>cc \<in> set before. toLowerCase (cc_name cc) \<noteq> toLowerCase (fc_name figmaComponent)) \<and>
           toLowerCase (cc_name exactMatch) = toLowerCase (fc_name figmaComponent) \<and>
           \<lparr>em_figma_id = figma_id, em_figma_name = fc_name figmaComponent,
            em_code_component = exactMatch, em_confidence = 1\<rparr>
             \<in> set (exact_matches
                  (createComponentMappings figmaComponents codeComponents includeProps))"
proof -
  let ?P = "\<lambda>cc. toLowerCase (cc_name cc) = toLowerCase (fc_name figmaComponent)"
  from split_list_first_prop[OF assms(2)] obtain before exactMatch after where
    split: "codeComponents = before @ exactMatch # after" "?P exactMatch" "\<forall>cc \<in> set before. \<not> ?P cc"
    by blast
  have found: "find ?P codeComponents = Some exactMatch"
    unfolding split(1) using split(2,3) by (intro find_first) auto
  from create_step[OF assms(1), of codeComponents includeProps] obtain m' where
    sub: "set (exact_matches (mapOne codeComponents m' (figma_id, figmaComponent)))
      \<subseteq> set (exact_matches (createComponentMappings figmaComponents codeComponents includeProps))"
    by blast
  have "\<lparr>em_figma_id = figma_id, em_figma_name = fc_name figmaComponent,
         em_code_component = exactMatch, em_confidence = 1\<rparr>
        \<in> set (exact_matches (mapOne codeComponents m' (figma_id, figmaComponent)))"
    by (simp add: mapOne_cases found)
  with sub have "\<lparr>em_figma_id = figma_id, em_figma_name = fc_name figmaComponent,
         em_code_component = exactMatch, em_confidence = 1\<rparr>
        \<in> set (exact_matches (createComponentMappings figmaComponents codeComponents includeProps))"
    by blast
  with split show ?thesis by blast
qed

theorem exact_match_is_first_by_lowercase_name_witness:
  "(''1:1'', \<lparr>fc_name = ''AB'', fc_description = Some ''primary''\<rparr>) \<in> set example_figma \<and>
   (\<exists>cc \<in> set example_code. toLowerCase (cc_name cc) = toLowerCase ''AB'') \<and>
   \<lparr>em_figma_id = ''1:1'', em_figma_name = ''AB'',
    em_code_component = component ''Ab'' ''src/Ab.tsx'', em_confidence = 1\<rparr>
     \<in> set (exact_matches (createComponentMappings example_figma example_code True))"
proof -
  let ?fc = "\<lparr>fc_name = ''AB'', fc_description = Some ''primary''\<rparr>"
  have m: "(''1:1'', ?fc) \<in> set example_figma" by (simp add: example_figma_def)
  have low: "toLowerCase (cc_name (component ''Ab'' ''src/Ab.tsx'')) = toLowerCase ''AB''"
    by code_simp
  then have ex: "\<exists>cc \<in> set example_code. toLowerCase (cc_name cc) = toLowerCase (fc_name ?fc)"
    by (simp add: example_code_def)
  from exact_match_is_first_by_lowercase_name[OF m ex, of True]
  obtain before exactMatch after where
    sp: "example_code = before @ exactMatch # after"
    and nb: "\<forall>cc \<in> set before. toLowerCase (cc_name cc) \<noteq> toLowerCase ''AB''"
    and mem: "\<lparr>em_figma_id = ''1:1'', em_figma_name = ''AB'',
               em_code_component = exactMatch, em_confidence = 1\<rparr>
              \<in> set (exact_matches (createComponentMappings example_figma example_code True))"
    by auto
  have "before = []"
  proof (cases before)
    case (Cons b bs)
    with sp have "b = component ''Ab'' ''src/Ab.tsx''" by (simp add: example_code_def)
    with nb Cons low show ?thesis by simp
  qed simp
  with sp have "exactMatch = component ''Ab'' ''src/Ab.tsx''" by (simp add: example_code_def)
  with mem m ex show ?thesis by simp
qed

text \<open>
  C7: for a design component without an exact name match, let \<open>kept\<close> be the candidates of all
  code components whose similarity with the lower-cased design name is strictly greater
  than \<open>0.5\<close>. If \<open>kept\<close> is empty the component is recorded as missing in code, with its
  description (the empty string when absent). Otherwise it is recorded as a similar match
  whose suggestions, each with its score, are the first three of \<open>kept\<close> sorted by
  descending score, candidates of equal score keeping their original order.
\<close>

theorem similar_candidates_or_missing_in_code:
  fixes figmaComponents codeComponents includeProps figma_id figmaComponent
  defines "M \<equiv> createComponentMappings figmaComponents codeComponents includeProps"
  defines "kept \<equiv>
     filter (\<lambda>s. js_gt (sg_similarity s) (Num (1 / 2)))
       (map (\<lambda>cc. \<lparr>sg_component = cc,
                   sg_similarity = calculateNameSimilarity (toLowerCase (fc_name figmaComponent))
                                     (toLowerCase (cc_name cc))\<rparr>) codeComponents)"
  assumes "(figma_id, figmaComponent) \<in> set figmaComponents"
    and "\<forall>cc \<in> set codeComponents.
           toLowerCase (cc_name cc) \<noteq> toLowerCase (fc_name figmaComponent)"
  shows "\<exists>sorted_kept.
           mset sorted_kept = mset kept \<and>
           sorted_wrt (\<lambda>x y. \<not> js_gt (sg_similarity y) (sg_similarity x)) sorted_kept \<and>
           (\<forall>v. filter (\<lambda>s. sg_similarity s = v) sorted_kept =
                filter (\<lambda>s. sg_similarity s = v) kept) \<and>
           (if kept = []
            then \<lparr>mc_figma_id = figma_id, mc_figma_name = fc_name figmaComponent,
                  mc_description = (case fc_description figmaComponent of None \<Rightarrow> [] | Some d \<Rightarrow> d)\<rparr>
                   \<in> set (missing_in_code M)
            else \<lparr>sm_figma_id = figma_id, sm_figma_name = fc_name figmaComponent,
                  sm_suggestions = take 3 sorted_kept\<rparr>
                   \<in> set (similar_matches M))"
proof -
  let ?n = "toLowerCase (fc_name figmaComponent)"
  let ?srt = "similarMatches ?n codeComponents"
  have kept: "kept = filter (\<lambda>match. js_gt (sg_similarity match) (Num (1 / 2)))
      (scoredCandidates ?n codeComponents)"
    by (simp add: kept_def scoredCandidates_def)
  have srt: "?srt = js_sort (\<lambda>a b. js_sub (sg_similarity b) (sg_similarity a)) kept"
    by (simp add: similarMatches_def kept)
  have num: "all_Num kept" unfolding kept by (rule kept_all_Num)
  have nil: "?srt = [] \<longleftrightarrow> kept = []"
    unfolding kept by (rule similarMatches_Nil_iff)
  have none: "find (\<lambda>cc. toLowerCase (cc_name cc) = ?n) codeComponents = None"
    using assms(4) by (simp add: find_None_iff)
  from create_step[OF assms(3), of codeComponents includeProps] obtain m' where
    sub: "set (similar_matches (mapOne codeComponents m' (figma_id, figmaComponent)))
            \<subseteq> set (similar_matches M)"
         "set (missing_in_code (mapOne codeComponents m' (figma_id, figmaComponent)))
            \<subseteq> set (missing_in_code M)"
    unfolding M_def by blast
  have "if kept = []
        then \<lparr>mc_figma_id = figma_id, mc_figma_name = fc_name figmaComponent,
              mc_description = (case fc_description figmaComponent of None \<Rightarrow> [] | Some d \<Rightarrow> d)\<rparr>
               \<in> set (missing_in_code M)
        else \<lparr>sm_figma_id = figma_id, sm_figma_name = fc_name figmaComponent,
              sm_suggestions = take 3 ?srt\<rparr> \<in> set (similar_matches M)"
  proof (cases "kept = []")
    case True
    with nil have "\<lparr>mc_figma_id = figma_id, mc_figma_name = fc_name figmaComponent,
              mc_description = (case fc_description figmaComponent of None \<Rightarrow> [] | Some d \<Rightarrow> d)\<rparr>
        \<in> set (missing_in_code (mapOne codeComponents m' (figma_id, figmaComponent)))"
      by (simp add: mapOne_cases none)
    with sub(2) True show ?thesis by auto
  next
    case False
    with nil have "\<lparr>sm_figma_id = figma_id, sm_figma_name = fc_name figmaComponent,
              sm_suggestions = take 3 ?srt\<rparr>
        \<in> set (similar_matches (mapOne codeComponents m' (figma_id, figmaComponent)))"
      by (simp add: mapOne_cases none)
    with sub(1) False show ?thesis by auto
  qed
  with js_sort_descending[OF num, folded srt] show ?thesis by blast
qed

theorem similar_candidates_or_missing_in_code_witness:
  "(''1:2'', \<lparr>fc_name = ''ABCD'', fc_description = None\<rparr>) \<in> set example_figma \<and>
   \<not> (\<exists>cc \<in> set example_code. toLowerCase (cc_name cc) = toLowerCase ''ABCD'') \<and>
   (\<exists>sorted_kept.
      mset sorted_kept =
        mset [\<lparr>sg_component = component ''Ab'' ''src/Ab.tsx'', sg_similarity = Num (2 / 3)\<rparr>,
              \<lparr>sg_component = component ''ab'' ''lib/ab.tsx'', sg_similarity = Num (2 / 3)\<rparr>,
              \<lparr>sg_component = component ''Abc'' ''src/Abc.tsx'', sg_similarity = Num (6 / 7)\<rparr>,
              \<lparr>sg_component = component ''abd'' ''src/abd.tsx'', sg_similarity = Num (6 / 7)\<rparr>] \<and>
      sorted_wrt (\<lambda>x y. \<not> js_gt (sg_similarity y) (sg_similarity x)) sorted_kept \<and>
      \<lparr>sm_figma_id = ''1:2'', sm_figma_name = ''ABCD'', sm_suggestions = take 3 sorted_kept\<rparr>
        \<in> set (similar_matches (createComponentMappings example_figma example_code True)))"
proof -
  let ?fc = "\<lparr>fc_name = ''ABCD'', fc_description = None\<rparr>"
  have m: "(''1:2'', ?fc) \<in> set example_figma" by (simp add: example_figma_def)
  have n: "\<not> (\<exists>cc \<in> set example_code. toLowerCase (cc_name cc) = toLowerCase ''ABCD'')"
    by code_simp
  then have h: "\<forall>cc \<in> set example_code. toLowerCase (cc_name cc) \<noteq> toLowerCase (fc_name ?fc)"
    by simp
  have kept: "filter (\<lambda>s. js_gt (sg_similarity s) (Num (1 / 2)))
       (map (\<lambda>cc. \<lparr>sg_component = cc,
                   sg_similarity = calculateNameSimilarity (toLowerCase ''ABCD'')
                                     (toLowerCase (cc_name cc))\<rparr>) example_code) =
       [\<lparr>sg_component = component ''Ab'' ''src/Ab.tsx'', sg_similarity = Num (2 / 3)\<rparr>,
        \<lparr>sg_component = component ''ab'' ''lib/ab.tsx'', sg_similarity = Num (2 / 3)\<rparr>,
        \<lparr>sg_component = component ''Abc'' ''src/Abc.tsx'', sg_similarity = Num (6 / 7)\<rparr>,
        \<lparr>sg_component = component ''abd'' ''src/abd.tsx'', sg_similarity = Num (6 / 7)\<rparr>]"
    by code_simp
  from similar_candidates_or_missing_in_code[OF m h, of True]
  have "\<exists>sorted_kept.
      mset sorted_kept =
        mset [\<lparr>sg_component = component ''Ab'' ''src/Ab.tsx'', sg_similarity = Num (2 / 3)\<rparr>,
              \<lparr>sg_component = component ''ab'' ''lib/ab.tsx'', sg_similarity = Num (2 / 3)\<rparr>,
              \<lparr>sg_component = component ''Abc'' ''src/Abc.tsx'', sg_similarity = Num (6 / 7)\<rparr>,
              \<lparr>sg_component = component ''abd'' ''src/abd.tsx'', sg_similarity = Num (6 / 7)\<rparr>] \<and>
      sorted_wrt (\<lambda>x y. \<not> js_gt (sg_similarity y) (sg_similarity x)) sorted_kept \<and>
      \<lparr>sm_figma_id = ''1:2'', sm_figma_name = ''ABCD'', sm_suggestions = take 3 sorted_kept\<rparr>
        \<in> set (similar_matches (createComponentMappings example_figma example_code True))"
    unfolding FigmaComponent.simps kept by (elim ex_forward) simp
  with m n show ?thesis by (intro conjI)
qed

section \<open>Claims about the consistency score\<close>

text \<open>
  C8: the consistency score of a report is \<open>max(0, 100 - 10 \<times> totalIssueCount)\<close>, the count
  being the combined length of the issue lists of the enabled sub-analyses; two issues
  give 80, eleven give 0, and one more issue lowers a positive score by exactly 10 (the
  score never falls below 0).
\<close>

theorem consistency_score_formula:
  fixes report :: "'i ConsistencyReport" and componentsAnalysis stylesAnalysis :: "'i Analysis"
  shows "calculateConsistencyScore report = max 0 (100 - 10 * int (totalIssues report)) \<and>
    consistency_score
      (buildConsistencyReport check_components check_styles componentsAnalysis stylesAnalysis) =
      max 0 (100 - 10 * int ((if check_components then length (an_issues componentsAnalysis) else 0) +
                             (if check_styles then length (an_issues stylesAnalysis) else 0))) \<and>
    (totalIssues report = 2 \<longrightarrow> calculateConsistencyScore report = 80) \<and>
    (totalIssues report = 11 \<longrightarrow> calculateConsistencyScore report = 0) \<and>
    calculateConsistencyScore (report\<lparr>issues := Some (l @ [x])\<rparr>) =
      max 0 (calculateConsistencyScore (report\<lparr>issues := Some l\<rparr>) - 10) \<and>
    (0 < calculateConsistencyScore (report\<lparr>issues := Some l\<rparr>) \<longrightarrow>
       calculateConsistencyScore (report\<lparr>issues := Some (l @ [x])\<rparr>) =
         calculateConsistencyScore (report\<lparr>issues := Some l\<rparr>) - 10)"
proof -
  have a: "calculateConsistencyScore report = max 0 (100 - 10 * int (totalIssues report))"
    by (simp add: calculateConsistencyScore_def)
  have b: "consistency_score
      (buildConsistencyReport check_components check_styles componentsAnalysis stylesAnalysis) =
      max 0 (100 - 10 * int ((if check_components then length (an_issues componentsAnalysis) else 0) +
                             (if check_styles then length (an_issues stylesAnalysis) else 0)))"
    by (simp add: buildConsistencyReport_def calculateConsistencyScore_def totalIssues_def Let_def
        algebra_simps)
  have c: "totalIssues report = 2 \<longrightarrow> calculateConsistencyScore report = 80"
    and d: "totalIssues report = 11 \<longrightarrow> calculateConsistencyScore report = 0"
    by (simp_all add: calculateConsistencyScore_def)
  have e: "calculateConsistencyScore (report\<lparr>issues := Some (l @ [x])\<rparr>) =
      max 0 (calculateConsistencyScore (report\<lparr>issues := Some l\<rparr>) - 10)"
    by (simp add: calculateConsistencyScore_def totalIssues_def)
  have f: "0 < calculateConsistencyScore (report\<lparr>issues := Some l\<rparr>) \<longrightarrow>
       calculateConsistencyScore (report\<lparr>issues := Some (l @ [x])\<rparr>) =
         calculateConsistencyScore (report\<lparr>issues := Some l\<rparr>) - 10"
    by (simp add: calculateConsistencyScore_def totalIssues_def)
  from a b c d e f show ?thesis by (intro conjI)
qed

theorem consistency_score_formula_witness:
  "calculateConsistencyScore
     \<lparr>consistency_score = 0, issues = Some [''a'', ''b''], recommendations = []\<rparr> = 80 \<and>
   calculateConsistencyScore
     \<lparr>consistency_score = 0, issues = Some (replicate 11 ''a''), recommendations = []\<rparr> = 0 \<and>
   calculateConsistencyScore
     \<lparr>consistency_score = 0, issues = Some ([''a'', ''b''] @ [''c'']), recommendations = []\<rparr> = 70"
proof -
  let ?r2 = "\<lparr>consistency_score = 0, issues = Some [''a'', ''b''], recommendations = []\<rparr>"
  let ?r11 = "\<lparr>consistency_score = 0, issues = Some (replicate 11 ''a''), recommendations = []\<rparr>"
  have t2: "totalIssues ?r2 = 2" and t11: "totalIssues ?r11 = 11"
    by (simp_all add: totalIssues_def)
  from consistency_score_formula[of ?r2 True True checkComponentConsistency checkStyleConsistency
      "[''a'', ''b'']" "''c''"] t2
  have s2: "calculateConsistencyScore ?r2 = 80"
    and step: "0 < calculateConsistencyScore ?r2 \<longrightarrow>
      calculateConsistencyScore (?r2\<lparr>issues := Some ([''a'', ''b''] @ [''c''])\<rparr>) =
        calculateConsistencyScore ?r2 - 10"
    by simp_all
  from consistency_score_formula[of ?r11 True True checkComponentConsistency checkStyleConsistency
      "[]" "''c''"] t11
  have s11: "calculateConsistencyScore ?r11 = 0" by simp
  from s2 step have "calculateConsistencyScore (?r2\<lparr>issues := Some ([''a'', ''b''] @ [''c''])\<rparr>) = 70"
    by simp
  with s2 s11 show ?thesis by simp
qed

section \<open>Properties of the matchers\<close>

declare exportsFrom.simps [simp del] matchPropNames.simps [simp del]

lemma search_None_iff: "search m s = None \<longleftrightarrow> (\<forall>i \<le> length s. m (drop i s) = [])"
proof (induction s)
  case Nil
  show ?case by (simp split: list.splits)
next
  case (Cons a s)
  have "(\<forall>i \<le> length (a # s). m (drop i (a # s)) = []) \<longleftrightarrow>
        m (a # s) = [] \<and> (\<forall>i \<le> length s. m (drop i s) = [])"
  proof
    assume h: "\<forall>i \<le> length (a # s). m (drop i (a # s)) = []"
    from h[rule_format, of 0] have "m (a # s) = []" by simp
    moreover have "m (drop i s) = []" if "i \<le> length s" for i
      using h[rule_format, of "Suc i"] that by simp
    ultimately show "m (a # s) = [] \<and> (\<forall>i \<le> length s. m (drop i s) = [])" by blast
  next
    assume h: "m (a # s) = [] \<and> (\<forall>i \<le> length s. m (drop i s) = [])"
    show "\<forall>i \<le> length (a # s). m (drop i (a # s)) = []"
    proof (intro allI impI)
      fix i assume "i \<le> length (a # s)"
      then show "m (drop i (a # s)) = []" using h by (cases i) auto
    qed
  qed
  with Cons.IH show ?case by (cases "m (a # s)") auto
qed

lemma lit_append: "lit w (w @ t) = [([], length w)]"
  by (simp add: lit_def)

lemma many_run:
  assumes "\<forall>c \<in> set ws. P c" and "lo \<le> length ws"
  shows "([], length ws) \<in> set (many lo P (ws @ t))"
proof -
  have "takeWhile P (ws @ t) = ws @ takeWhile P t"
    using assms(1) by (simp add: takeWhile_append2)
  then show ?thesis using assms(2) by (auto simp: many_def)
qed

lemma seq_append:
  assumes "(c1, length u) \<in> set (m1 (u @ t))" and "(c2, n2) \<in> set (m2 t)"
  shows "(c1 @ c2, length u + n2) \<in> set (seq m1 m2 (u @ t))"
  unfolding seq_def using assms by (auto intro!: bexI[of _ "(c1, length u)"])

lemma cap_append:
  assumes "(c, length u) \<in> set (m (u @ t))"
  shows "(u # c, length u) \<in> set (cap m (u @ t))"
  unfolding cap_def using assms by (auto simp: image_iff intro!: bexI[of _ "(c, length u)"])

lemma bare_function_matches:
  assumes "ws \<noteq> []" "\<forall>c \<in> set ws. isSpace c" "nm \<noteq> []" "\<forall>c \<in> set nm. isWord c"
    "\<forall>c \<in> set ws'. isSpace c"
  shows "patterns React (''function'' @ ws @ nm @ ws' @ ''('' @ post) \<noteq> []"
proof -
  let ?unit = "\<lambda>s :: string. [([] :: string list, 0 :: nat)]"
  let ?m5 = "seq (lit ''('') ?unit"
  let ?m4 = "seq (many 0 isSpace) ?m5"
  let ?m3 = "seq (cap (many 1 isWord)) ?m4"
  let ?m2 = "seq (many 1 isSpace) ?m3"
  let ?m1 = "seq (lit ''function'') ?m2"
  have sp': "([], length ws') \<in> set (many 0 isSpace (ws' @ t))" for t
    using many_run[OF assms(5), of 0 t] by simp
  have wd: "([nm], length nm) \<in> set (cap (many 1 isWord) (nm @ t))" for t
    using cap_append[where m = "many 1 isWord" and u = nm and t = t and c = "[]"]
      many_run[OF assms(4), of 1 t] assms(3) by (simp add: Suc_le_eq)
  have sp: "([], length ws) \<in> set (many 1 isSpace (ws @ t))" for t
    using many_run[OF assms(2), of 1 t] assms(1) by (simp add: Suc_le_eq)
  have 0: "([], 0) \<in> set (?unit post)" by simp
  have "([], length ''('') \<in> set (lit ''('' (''('' @ post))" by (simp add: lit_def)
  from seq_append[where ?m1.0 = "lit ''(''" and ?m2.0 = ?unit, OF this 0]
  have 5: "([], 1) \<in> set (?m5 (''('' @ post))" by simp
  from seq_append[where ?m1.0 = "many 0 isSpace" and ?m2.0 = ?m5, OF sp' 5]
  have 4: "([], length ws' + 1) \<in> set (?m4 (ws' @ ''('' @ post))" by simp
  from seq_append[where ?m1.0 = "cap (many 1 isWord)" and ?m2.0 = ?m4, OF wd 4]
  have 3: "([nm], length nm + (length ws' + 1)) \<in> set (?m3 (nm @ ws' @ ''('' @ post))" by simp
  from seq_append[where ?m1.0 = "many 1 isSpace" and ?m2.0 = ?m3, OF sp 3]
  have 2: "([nm], length ws + (length nm + (length ws' + 1)))
      \<in> set (?m2 (ws @ nm @ ws' @ ''('' @ post))" by simp
  have "([], length ''function'') \<in> set (lit ''function'' (''function'' @ ws @ nm @ ws' @ ''('' @ post))"
    unfolding lit_append by simp
  from seq_append[where ?m1.0 = "lit ''function''" and ?m2.0 = ?m2, OF this 2]
  have "?m1 (''function'' @ ws @ nm @ ws' @ ''('' @ post) \<noteq> []" by auto
  moreover have "seqs [lit ''function'', many 1 isSpace, cap (many 1 isWord), many 0 isSpace, lit ''(''] = ?m1"
    by (simp add: seqs_def)
  ultimately show ?thesis by (simp only: patterns.simps alt_def) simp
qed

lemma seq_lit_nonempty: "seq (lit w) m s \<noteq> [] \<Longrightarrow> \<exists>t. s = w @ t"
proof -
  assume "seq (lit w) m s \<noteq> []"
  then have "take (length w) s = w"
    by (auto simp: seq_def lit_def split: if_splits)
  then show ?thesis by (metis append_take_drop_id)
qed

lemma exportRegex_starts_with_export: "exportRegex s \<noteq> [] \<Longrightarrow> \<exists>t. s = ''export'' @ t"
  unfolding exportRegex_def seqs_def by (simp only: foldr.simps o_apply) (rule seq_lit_nonempty)

lemma no_export_no_exports:
  assumes "\<not> sublist ''export'' content"
  shows "extractExports content framework = []"
proof -
  have "exportRegex (drop i content) = []" for i
  proof (rule ccontr)
    assume "exportRegex (drop i content) \<noteq> []"
    then obtain t where "drop i content = ''export'' @ t"
      using exportRegex_starts_with_export by blast
    then have "content = take i content @ ''export'' @ t"
      by (metis append_take_drop_id)
    with assms show False unfolding sublist_def by blast
  qed
  then have "search exportRegex content = None" by (simp add: search_None_iff)
  then show ?thesis by (simp add: extractExports_def exportsFrom.simps)
qed

lemma search_Some_iff:
  "search m s = Some (i, c, n) \<longleftrightarrow>
     i \<le> length s \<and> (\<forall>j < i. m (drop j s) = []) \<and> (\<exists>more. m (drop i s) = (c, n) # more)"
proof (induction s arbitrary: i)
  case Nil
  show ?case by (auto split: list.splits)
next
  case (Cons a s)
  show ?case
  proof (cases "m (a # s)")
    case (Cons r rs)
    obtain c' n' where r: "r = (c', n')" by (cases r)
    have "search m (a # s) = Some (0, c', n')" by (simp add: Cons r)
    moreover have "(i \<le> length (a # s) \<and> (\<forall>j < i. m (drop j (a # s)) = []) \<and>
        (\<exists>more. m (drop i (a # s)) = (c, n) # more)) \<longleftrightarrow> i = 0 \<and> c = c' \<and> n = n'"
    proof (cases i)
      case 0
      then show ?thesis by (auto simp: Cons r)
    next
      case (Suc k)
      have "\<not> (\<forall>j < i. m (drop j (a # s)) = [])"
        using Suc Cons by (auto intro!: exI[of _ 0])
      then show ?thesis using Suc by simp
    qed
    ultimately show ?thesis by auto
  next
    case Nil
    show ?thesis
    proof (cases i)
      case 0
      then show ?thesis by (auto simp: Nil)
    next
      case (Suc k)
      have "(\<forall>j < Suc k. m (drop j (a # s)) = []) \<longleftrightarrow> (\<forall>j < k. m (drop j s) = [])"
      proof
        assume h: "\<forall>j < Suc k. m (drop j (a # s)) = []"
        show "\<forall>j < k. m (drop j s) = []"
        proof (intro allI impI)
          fix j assume "j < k"
          with h[rule_format, of "Suc j"] show "m (drop j s) = []" by simp
        qed
      next
        assume h: "\<forall>j < k. m (drop j s) = []"
        show "\<forall>j < Suc k. m (drop j (a # s)) = []"
        proof (intro allI impI)
          fix j assume "j < Suc k"
          then show "m (drop j (a # s)) = []" using h Nil by (cases j) auto
        qed
      qed
      then show ?thesis using Cons.IH[of k] Suc Nil by auto
    qed
  qed
qed

lemma search_transfer:
  assumes "search m s = Some (i, c, n)"
    and "\<And>j. j \<le> i \<Longrightarrow> m (drop j s') = m (drop j s)"
    and "i \<le> length s'"
  shows "search m s' = Some (i, c, n)"
  using assms unfolding search_Some_iff by auto

lemma bounded_lit: "bounded (lit w)"
proof -
  have "length w \<le> length s" if "take (length w) s = w" for s
    using arg_cong[OF that, of length] by simp
  then show ?thesis unfolding bounded_def lit_def by (auto split: if_splits)
qed

lemma bounded_many: "bounded (many lo P)"
proof -
  have "n \<le> length s" if "(c, n) \<in> set (many lo P s)" for s c n
  proof -
    from that have "n < Suc (length (takeWhile P s))" by (auto simp: many_def)
    moreover have "length (takeWhile P s) \<le> length s" by (rule length_takeWhile_le)
    ultimately show ?thesis by simp
  qed
  then show ?thesis unfolding bounded_def by blast
qed

lemma bounded_seq:
  assumes "bounded m1" and "bounded m2"
  shows "bounded (seq m1 m2)"
  unfolding bounded_def
proof (intro allI impI)
  fix s c n assume "(c, n) \<in> set (seq m1 m2 s)"
  then obtain c1 n1 c2 n2 where "(c1, n1) \<in> set (m1 s)" "(c2, n2) \<in> set (m2 (drop n1 s))"
    "n = n1 + n2"
    unfolding seq_def by auto
  moreover from this assms have "n1 \<le> length s" "n2 \<le> length (drop n1 s)"
    unfolding bounded_def by blast+
  ultimately show "n \<le> length s" by simp
qed

lemma bounded_alt: "bounded m1 \<Longrightarrow> bounded m2 \<Longrightarrow> bounded (alt m1 m2)"
  unfolding bounded_def alt_def by auto

lemma bounded_cap: "bounded m \<Longrightarrow> bounded (cap m)"
  unfolding bounded_def cap_def by auto

lemma stops_at_lit: "x \<notin> set w \<Longrightarrow> stops_at x (lit w)"
proof -
  assume x: "x \<notin> set w"
  have "take (length w) (u @ x # v) = w \<longleftrightarrow> take (length w) u = w" for u v
  proof (cases "length w \<le> length u")
    case True
    then show ?thesis by simp
  next
    case False
    then obtain k where k: "length w = Suc (length u + k)"
      using less_imp_Suc_add[of "length u" "length w"] by auto
    have "take (length w) (u @ x # v) = u @ x # take k v"
      unfolding k by simp
    moreover have "u @ x # take k v \<noteq> w"
      using x by auto
    moreover have "take (length w) u \<noteq> w"
    proof
      assume "take (length w) u = w"
      from arg_cong[OF this, of length] False show False by simp
    qed
    ultimately show ?thesis by simp
  qed
  then show ?thesis unfolding stops_at_def by (simp add: bounded_lit lit_def)
qed

lemma stops_at_many: "\<not> P x \<Longrightarrow> stops_at x (many lo P)"
proof -
  assume x: "\<not> P x"
  have "takeWhile P (u @ x # v) = takeWhile P u" for u v
  proof (cases "\<forall>c \<in> set u. P c")
    case True
    then have "takeWhile P u = u" by (simp add: takeWhile_eq_all_conv)
    moreover from True x have "takeWhile P (u @ x # v) = u"
      by (simp add: takeWhile_append2)
    ultimately show ?thesis by (simp only:)
  next
    case False
    then show ?thesis by (auto simp: takeWhile_append1)
  qed
  then show ?thesis unfolding stops_at_def by (simp add: bounded_many many_def)
qed

lemma stops_at_seq:
  assumes "stops_at x m1" and "stops_at x m2"
  shows "stops_at x (seq m1 m2)"
proof -
  from assms have b: "bounded m1" "bounded m2"
    and s1: "\<And>u v. m1 (u @ x # v) = m1 u" and s2: "\<And>u v. m2 (u @ x # v) = m2 u"
    by (auto simp: stops_at_def)
  have "seq m1 m2 (u @ x # v) = seq m1 m2 u" for u v
  proof -
    have "m2 (drop n1 (u @ x # v)) = m2 (drop n1 u)" if "(c1, n1) \<in> set (m1 u)" for c1 n1
    proof -
      from that b(1) have "n1 \<le> length u" by (auto simp: bounded_def)
      then show ?thesis by (simp add: s2)
    qed
    then have "(case p of (c1, n1) \<Rightarrow> map (\<lambda>(c2, n2). (c1 @ c2, n1 + n2)) (m2 (drop n1 (u @ x # v)))) =
               (case p of (c1, n1) \<Rightarrow> map (\<lambda>(c2, n2). (c1 @ c2, n1 + n2)) (m2 (drop n1 u)))"
      if "p \<in> set (m1 u)" for p
      using that by (cases p) simp
    then show ?thesis unfolding seq_def s1
      by (intro arg_cong[where f = concat] map_cong[OF refl])
  qed
  with bounded_seq[OF b] show ?thesis by (simp add: stops_at_def)
qed

lemma stops_at_alt: "stops_at x m1 \<Longrightarrow> stops_at x m2 \<Longrightarrow> stops_at x (alt m1 m2)"
  unfolding stops_at_def by (simp add: bounded_alt) (simp add: alt_def)

lemma stops_at_none: "stops_at x (\<lambda>s. [])"
  by (simp add: stops_at_def bounded_def)

lemma stops_at_cap:
  assumes "stops_at x m"
  shows "stops_at x (cap m)"
proof -
  from assms have b: "bounded m" and s: "\<And>u v. m (u @ x # v) = m u"
    by (auto simp: stops_at_def)
  have "cap m (u @ x # v) = cap m u" for u v
  proof -
    have "(case p of (cs, n) \<Rightarrow> (take n (u @ x # v) # cs, n)) =
          (case p of (cs, n) \<Rightarrow> (take n u # cs, n))" if "p \<in> set (m u)" for p
    proof (cases p)
      case (Pair cs n)
      with that b have "n \<le> length u" by (auto simp: bounded_def)
      with Pair show ?thesis by simp
    qed
    then show ?thesis unfolding cap_def s by (intro map_cong[OF refl])
  qed
  with bounded_cap[OF b] show ?thesis by (simp add: stops_at_def)
qed

lemma ends_with_last: "ends_with x (seq (lit [x]) (\<lambda>s. [([], 0)]))"
proof -
  let ?m = "seq (lit [x]) (\<lambda>s. [([], 0)])"
  have a: "?m s = (case s of [] \<Rightarrow> [] | y # _ \<Rightarrow> if y = x then [([], Suc 0)] else [])" for s
    by (cases s) (simp_all add: seq_def lit_def)
  have 1: "?m s = []" if "x \<notin> set s" for s
    using that unfolding a by (cases s) auto
  have b: "?m (u @ x # v) = (if u = [] then [([], Suc 0)] else [])" if "x \<notin> set u" for u v
    using that unfolding a by (cases u) auto
  have 2: "?m (u @ x # v) = ?m (u @ x # v')" if "x \<notin> set u" for u v v'
    unfolding b[OF that] ..
  have 3: "n = Suc (length u)" if "x \<notin> set u" "(c, n) \<in> set (?m (u @ x # v))" for u v c n
    using that(2) unfolding b[OF that(1)] by (auto split: if_splits)
  show ?thesis unfolding ends_with_def
  proof (intro conjI allI impI)
    fix s assume "x \<notin> set s" then show "?m s = []" by (rule 1)
  next
    fix u v v' assume "x \<notin> set u" then show "?m (u @ x # v) = ?m (u @ x # v')" by (rule 2)
  next
    fix u v c n assume "x \<notin> set u" "(c, n) \<in> set (?m (u @ x # v))"
    then show "n = Suc (length u)" by (rule 3)
  qed
qed

lemma ends_with_seq:
  assumes "stops_at x m1" and "ends_with x m2"
  shows "ends_with x (seq m1 m2)"
proof -
  from assms(1) have b: "bounded m1" and s1: "\<And>u v. m1 (u @ x # v) = m1 u"
    by (auto simp: stops_at_def)
  from assms(2) have e1: "\<And>s. x \<notin> set s \<Longrightarrow> m2 s = []"
    and e2: "\<And>u v v'. x \<notin> set u \<Longrightarrow> m2 (u @ x # v) = m2 (u @ x # v')"
    and e3: "\<And>u v c n. x \<notin> set u \<Longrightarrow> (c, n) \<in> set (m2 (u @ x # v)) \<Longrightarrow> n = Suc (length u)"
    unfolding ends_with_def by blast+
  have 1: "seq m1 m2 s = []" if "x \<notin> set s" for s
  proof -
    have "m2 (drop k s) = []" for k
      using that by (intro e1) (auto dest: in_set_dropD)
    then show ?thesis by (simp add: seq_def)
  qed
  have 2: "seq m1 m2 (u @ x # v) = seq m1 m2 (u @ x # v')" if "x \<notin> set u" for u v v'
  proof -
    have "m2 (drop n1 (u @ x # v)) = m2 (drop n1 (u @ x # v'))" if "(c1, n1) \<in> set (m1 u)" for c1 n1
    proof -
      from that b have "n1 \<le> length u" by (auto simp: bounded_def)
      moreover have "x \<notin> set (drop n1 u)" using \<open>x \<notin> set u\<close> by (auto dest: in_set_dropD)
      ultimately show ?thesis using e2[of "drop n1 u" v v'] by simp
    qed
    then show ?thesis unfolding seq_def s1
      by (intro arg_cong[where f = concat] map_cong) auto
  qed
  have 3: "n = Suc (length u)" if "x \<notin> set u" "(c, n) \<in> set (seq m1 m2 (u @ x # v))" for u v c n
  proof -
    from that(2) obtain c1 n1 c2 n2 where
      m1: "(c1, n1) \<in> set (m1 u)" and m2: "(c2, n2) \<in> set (m2 (drop n1 (u @ x # v)))"
      and n: "n = n1 + n2"
      unfolding seq_def s1 by auto
    from m1 b have le: "n1 \<le> length u" by (auto simp: bounded_def)
    have "x \<notin> set (drop n1 u)" using that(1) by (auto dest: in_set_dropD)
    from e3[OF this, of c2 n2 v] m2 le have "n2 = Suc (length u - n1)" by simp
    with n le show ?thesis by simp
  qed
  show ?thesis unfolding ends_with_def
  proof (intro conjI allI impI)
    fix s assume "x \<notin> set s" then show "seq m1 m2 s = []" by (rule 1)
  next
    fix u v v' assume "x \<notin> set u"
    then show "seq m1 m2 (u @ x # v) = seq m1 m2 (u @ x # v')" by (rule 2)
  next
    fix u v c n assume "x \<notin> set u" "(c, n) \<in> set (seq m1 m2 (u @ x # v))"
    then show "n = Suc (length u)" by (rule 3)
  qed
qed

lemma propsRegex_ends_with: "ends_with CHR ''}'' propsRegex"
proof -
  let ?x = "CHR ''}''"
  have kw: "stops_at ?x (alts [lit ''interface'', lit ''type''])"
    unfolding alts_def by (simp only: foldr.simps o_apply id_apply)
      (intro stops_at_alt stops_at_lit stops_at_none; simp)
  have sp1: "stops_at ?x (many 1 isSpace)" and sp0: "stops_at ?x (many 0 isSpace)"
    by (rule stops_at_many; simp add: isSpace_def)+
  have wd: "stops_at ?x (many 0 isWord)"
    by (rule stops_at_many) (simp add: isWord_def)
  have pr: "stops_at ?x (lit ''Props'')" and br: "stops_at ?x (lit ''{'')"
    by (rule stops_at_lit; simp)+
  have body: "stops_at ?x (cap (many 1 (\<lambda>c. c \<noteq> ?x)))"
    by (intro stops_at_cap stops_at_many) simp
  have last: "ends_with ?x (seq (lit ''}'') (\<lambda>s. [([], 0)]))"
    by (rule ends_with_last)
  show ?thesis
    unfolding propsRegex_def seqs_def
    by (simp only: foldr.simps o_apply id_apply)
       (intro ends_with_seq[OF kw] ends_with_seq[OF sp1] ends_with_seq[OF wd]
          ends_with_seq[OF pr] ends_with_seq[OF sp0] ends_with_seq[OF br]
          ends_with_seq[OF body] last)
qed

lemma ends_with_agree:
  assumes "ends_with x m" and "x \<in> set z"
  shows "m (z @ a) = m (z @ b)"
proof -
  from split_list_first[OF assms(2)] obtain u r where z: "z = u @ x # r" "x \<notin> set u" by blast
  from assms(1) have "m (u @ x # (r @ a)) = m (u @ x # (r @ b))"
    unfolding ends_with_def using z(2) by blast
  then show ?thesis by (simp add: z(1))
qed

lemma ends_with_match:
  assumes "ends_with x m" and "(c, n) \<in> set (m s)"
  obtains u v where "s = u @ x # v" "x \<notin> set u" "n = Suc (length u)"
proof -
  from assms have "x \<in> set s" unfolding ends_with_def by fastforce
  from split_list_first[OF this] obtain u v where s: "s = u @ x # v" "x \<notin> set u" by blast
  from assms(1) s(2) assms(2)[unfolded s(1)] have "n = Suc (length u)"
    unfolding ends_with_def by blast
  with s that show thesis by blast
qed

lemma first_props_declaration_decides:
  assumes "search propsRegex content = Some (i, caps, n)"
  shows "search propsRegex (take (i + n) content @ rest) = Some (i, caps, n)"
proof -
  from assms have i: "i \<le> length content"
    and hit: "(caps, n) \<in> set (propsRegex (drop i content))"
    unfolding search_Some_iff by auto
  from ends_with_match[OF propsRegex_ends_with hit] obtain u v where
    d: "drop i content = u @ CHR ''}'' # v" and n: "n = Suc (length u)"
    by blast
  have li: "length (take i content) = i" using i by simp
  have "take (i + n) content = take i content @ take n (drop i content)"
    by (rule take_add)
  also have "take n (drop i content) = u @ [CHR ''}'']"
    unfolding d n by simp
  finally have t: "take (i + n) content = take i content @ u @ [CHR ''}'']" .
  show ?thesis
  proof (rule search_transfer[OF assms])
    show "i \<le> length (take (i + n) content @ rest)" using i by (simp add: t)
  next
    fix j assume j: "j \<le> i"
    let ?z = "drop j (take i content) @ u @ [CHR ''}'']"
    have "drop j (take (i + n) content @ rest) = ?z @ rest"
      using j i by (simp add: t min_absorb2)
    moreover have "drop j content = ?z @ v"
    proof -
      have "drop j content = drop j (take i content @ drop i content)" by simp
      also have "\<dots> = drop j (take i content) @ drop i content"
        using j li by (simp del: append_take_drop_id)
      finally show ?thesis unfolding d by simp
    qed
    moreover have "propsRegex (?z @ rest) = propsRegex (?z @ v)"
      by (rule ends_with_agree[OF propsRegex_ends_with]) simp
    ultimately show "propsRegex (drop j (take (i + n) content @ rest)) = propsRegex (drop j content)"
      by simp
  qed
qed

lemma seq_elim:
  assumes "(c, n) \<in> set (seq m1 m2 s)"
  obtains c1 n1 c2 n2 where "(c1, n1) \<in> set (m1 s)" "(c2, n2) \<in> set (m2 (drop n1 s))"
    "c = c1 @ c2" "n = n1 + n2" "take n s = take n1 s @ take n2 (drop n1 s)"
proof -
  from assms obtain c1 n1 c2 n2 where *: "(c1, n1) \<in> set (m1 s)"
    "(c2, n2) \<in> set (m2 (drop n1 s))" "c = c1 @ c2" "n = n1 + n2"
    unfolding seq_def by auto
  have "take n s = take n1 s @ take n2 (drop n1 s)" unfolding *(4) by (rule take_add)
  with * that show thesis by blast
qed

lemma nocap_lit: "nocap (lit w)"
  by (auto simp: nocap_def lit_def split: if_splits)

lemma nocap_many: "nocap (many lo P)"
  by (auto simp: nocap_def many_def)

lemma nocap_alt: "nocap m1 \<Longrightarrow> nocap m2 \<Longrightarrow> nocap (alt m1 m2)"
  unfolding nocap_def alt_def by (metis Un_iff set_append)

lemma nocap_none: "nocap (\<lambda>s. [])"
  by (simp add: nocap_def)

lemma braces_seq:
  assumes "nocap m1" and "braces m2"
  shows "braces (seq m1 m2)"
  unfolding braces_def
proof (intro allI impI)
  fix s c n assume "(c, n) \<in> set (seq m1 m2 s)"
  then obtain c1 n1 c2 n2 where *: "(c1, n1) \<in> set (m1 s)" "(c2, n2) \<in> set (m2 (drop n1 s))"
    "c = c1 @ c2" "take n s = take n1 s @ take n2 (drop n1 s)"
    by (rule seq_elim)
  from assms(1) *(1,3) have c: "c = c2" by (auto simp: nocap_def)
  from assms(2) *(2) obtain head body where
    "c2 = [body]" "take n2 (drop n1 s) = head @ ''{'' @ body @ ''}''"
    unfolding braces_def braced_def by blast
  with c *(4) have "c = [body]" "take n s = (take n1 s @ head) @ ''{'' @ body @ ''}''" by simp_all
  then show "braced c (take n s)" unfolding braced_def by blast
qed

lemma braces_body:
  "braces (seq (lit ''{'') (seq (cap (many 1 P)) (seq (lit ''}'') (\<lambda>s. [([], 0)]))))"
  unfolding braces_def
proof (intro allI impI)
  fix s c n
  assume "(c, n) \<in> set (seq (lit ''{'') (seq (cap (many 1 P)) (seq (lit ''}'') (\<lambda>s. [([], 0)]))) s)"
  then obtain c1 n1 c2 n2 where 1: "(c1, n1) \<in> set (lit ''{'' s)"
    "(c2, n2) \<in> set (seq (cap (many 1 P)) (seq (lit ''}'') (\<lambda>s. [([], 0)])) (drop n1 s))"
    "c = c1 @ c2" "take n s = take n1 s @ take n2 (drop n1 s)"
    by (rule seq_elim)
  from 1(1) have l: "c1 = []" "take n1 s = ''{''" by (auto simp: lit_def split: if_splits)
  define t where "t = drop n1 s"
  from 1(2) obtain c3 n3 c4 n4 where 2: "(c3, n3) \<in> set (cap (many 1 P) t)"
    "(c4, n4) \<in> set (seq (lit ''}'') (\<lambda>s. [([], 0)]) (drop n3 t))"
    "c2 = c3 @ c4" "take n2 t = take n3 t @ take n4 (drop n3 t)"
    unfolding t_def[symmetric] by (rule seq_elim)
  define r where "r = drop n3 t"
  from 2(1) have b: "c3 = [take n3 t]" by (auto simp: cap_def many_def)
  from 2(2) have e: "c4 = []" "take n4 r = ''}''"
    unfolding r_def[symmetric] by (auto simp: seq_def lit_def split: if_splits)
  have "c = [take n3 t]" by (simp add: 1(3) 2(3) l(1) b e(1))
  moreover have "take n s = [] @ ''{'' @ take n3 t @ ''}''"
    unfolding 1(4) t_def[symmetric] 2(4) r_def[symmetric] l(2) e(2) by simp
  ultimately show "braced c (take n s)" unfolding braced_def by blast
qed

lemma propsRegex_braces: "braces propsRegex"
proof -
  have kw: "nocap (alts [lit ''interface'', lit ''type''])"
    unfolding alts_def by (simp only: foldr.simps o_apply id_apply)
      (intro nocap_alt nocap_lit nocap_none)
  show ?thesis
    unfolding propsRegex_def seqs_def
    by (simp only: foldr.simps o_apply id_apply)
       (intro braces_seq[OF kw] braces_seq[OF nocap_many] braces_seq[OF nocap_lit] braces_body)
qed

text \<open>Every match of the export pattern has exactly one group, the one the loop reads.\<close>

lemma nocap_seq: "nocap m1 \<Longrightarrow> nocap m2 \<Longrightarrow> nocap (seq m1 m2)"
  unfolding nocap_def by (metis append_Nil seq_elim)

lemma nocap_opt: "nocap m \<Longrightarrow> nocap (opt m)"
  unfolding nocap_def opt_def by auto

lemma nocap_unit: "nocap (\<lambda>s. [([], 0)])"
  by (simp add: nocap_def)

lemma exportRegex_one_group:
  assumes "(c, n) \<in> set (exportRegex s)"
  shows "\<exists>name. c = [name]"
proof -
  have one: "\<exists>name. c = [name]" if "(c, n) \<in> set (seq (cap (many 1 isWord)) (\<lambda>s. [([], 0)]) s)"
    for c n s
    using that by (auto simp: seq_def cap_def many_def)
  have step: "\<exists>name. c = [name]"
    if "nocap m1" "\<And>c n s. (c, n) \<in> set (m2 s) \<Longrightarrow> \<exists>name. c = [name]"
      "(c, n) \<in> set (seq m1 m2 s)" for m1 m2 c n s
  proof -
    from that(3) obtain c1 n1 c2 n2 where *: "(c1, n1) \<in> set (m1 s)"
      "(c2, n2) \<in> set (m2 (drop n1 s))" "c = c1 @ c2"
      by (rule seq_elim)
    from that(1) *(1) have "c1 = []" by (auto simp: nocap_def)
    with that(2)[OF *(2)] *(3) show ?thesis by simp
  qed
  have kw: "nocap (alts [lit ''function'', lit ''const'', lit ''class''])"
    unfolding alts_def by (simp only: foldr.simps o_apply id_apply)
      (intro nocap_alt nocap_lit nocap_none)
  have df: "nocap (opt (seqs [lit ''default'', many 1 isSpace]))"
    unfolding seqs_def by (simp only: foldr.simps o_apply id_apply)
      (intro nocap_opt nocap_seq nocap_lit nocap_many nocap_unit)
  from assms have "(c, n) \<in> set (seq (lit ''export'') (seq (many 1 isSpace)
      (seq (opt (seqs [lit ''default'', many 1 isSpace]))
        (seq (alts [lit ''function'', lit ''const'', lit ''class''])
          (seq (many 1 isSpace) (seq (cap (many 1 isWord)) (\<lambda>s. [([], 0)])))))) s)"
    unfolding exportRegex_def seqs_def[of "[lit ''export'', _, _, _, _, _]"]
    by (simp only: foldr.simps o_apply id_apply)
  then show ?thesis
    by (elim step[OF nocap_lit, rotated -1] step[OF nocap_many, rotated -1]
        step[OF df, rotated -1] step[OF kw, rotated -1] one)
qed

lemma take_within_takeWhile:
  assumes "k \<le> length (takeWhile P s)"
  shows "take k s = take k (takeWhile P s)"
proof -
  have "take k s = take k (takeWhile P s @ dropWhile P s)" by simp
  also have "\<dots> = take k (takeWhile P s)" using assms by (simp del: takeWhile_dropWhile_id)
  finally show ?thesis .
qed

lemma many_hit:
  assumes "(c, k) \<in> set (many lo P s)"
  shows "lo \<le> k" and "k \<le> length s" and "\<forall>x \<in> set (take k s). P x"
proof -
  from assms have k: "lo \<le> k" "k \<le> length (takeWhile P s)" by (auto simp: many_def)
  then show "lo \<le> k" by simp
  from k(2) length_takeWhile_le[of P s] show "k \<le> length s" by simp
  have "set (take k s) \<subseteq> set (takeWhile P s)"
    unfolding take_within_takeWhile[OF k(2)] by (rule set_take_subset)
  then show "\<forall>x \<in> set (take k s). P x" by (auto dest: set_takeWhileD)
qed

lemma propName_hit:
  assumes "(c, n) \<in> set (propNameRegex s)"
  obtains w where "w \<noteq> []" "\<forall>x \<in> set w. isWord x"
    "take n s = w @ ''?:'' \<or> take n s = w @ '':''"
proof -
  from assms have "(c, n) \<in> set (seq (cap (many 1 isWord))
      (seq (opt (lit ''?'')) (seq (lit '':'') (\<lambda>s. [([], 0)]))) s)"
    unfolding propNameRegex_def seqs_def by (simp only: foldr.simps o_apply id_apply)
  then obtain c1 n1 c2 n2 where 1: "(c1, n1) \<in> set (cap (many 1 isWord) s)"
    "(c2, n2) \<in> set (seq (opt (lit ''?'')) (seq (lit '':'') (\<lambda>s. [([], 0)])) (drop n1 s))"
    "take n s = take n1 s @ take n2 (drop n1 s)"
    by (rule seq_elim)
  from 1(1) obtain c0 where "(c0, n1) \<in> set (many 1 isWord s)" by (auto simp: cap_def)
  from many_hit[OF this] have w: "take n1 s \<noteq> []" "\<forall>x \<in> set (take n1 s). isWord x"
    by auto
  define t where "t = drop n1 s"
  from 1(2) obtain c3 n3 c4 n4 where 2: "(c3, n3) \<in> set (opt (lit ''?'') t)"
    "(c4, n4) \<in> set (seq (lit '':'') (\<lambda>s. [([], 0)]) (drop n3 t))"
    "take n2 t = take n3 t @ take n4 (drop n3 t)"
    unfolding t_def[symmetric] by (rule seq_elim)
  define r where "r = drop n3 t"
  from 2(1) have q: "take n3 t = ''?'' \<or> take n3 t = []"
    by (auto simp: opt_def lit_def split: if_splits)
  from 2(2) have e: "take n4 r = '':''"
    unfolding r_def[symmetric] by (auto simp: seq_def lit_def split: if_splits)
  have "take n s = take n1 s @ take n3 t @ '':''"
    unfolding 1(3) t_def[symmetric] 2(3) r_def[symmetric] e ..
  with q have "take n s = take n1 s @ ''?:'' \<or> take n s = take n1 s @ '':''" by auto
  with w that show thesis by blast
qed

lemma strip_prop_name:
  assumes "\<forall>x \<in> set w. isWord x"
  shows "filter (\<lambda>c. c \<noteq> CHR ''?'' \<and> c \<noteq> CHR '':'') (w @ ''?:'') = w"
    and "filter (\<lambda>c. c \<noteq> CHR ''?'' \<and> c \<noteq> CHR '':'') (w @ '':'') = w"
proof -
  have "x \<noteq> CHR ''?'' \<and> x \<noteq> CHR '':''" if "isWord x" for x
    using that by (auto simp: isWord_def)
  with assms have "filter (\<lambda>c. c \<noteq> CHR ''?'' \<and> c \<noteq> CHR '':'') w = w"
    by (simp add: filter_id_conv)
  then show "filter (\<lambda>c. c \<noteq> CHR ''?'' \<and> c \<noteq> CHR '':'') (w @ ''?:'') = w"
    and "filter (\<lambda>c. c \<noteq> CHR ''?'' \<and> c \<noteq> CHR '':'') (w @ '':'') = w"
    by simp_all
qed

lemma search_hit:
  assumes "search m s = Some (i, c, n)"
  shows "(c, n) \<in> set (m (drop i s))"
  using assms unfolding search_Some_iff by auto

lemma prop_names_are_sublists:
  "\<forall>p \<in> set (map (filter (\<lambda>c. c \<noteq> CHR ''?'' \<and> c \<noteq> CHR '':'')) (matchPropNames s)). sublist p s"
proof (induction s rule: matchPropNames.induct)
  case (1 s)
  show ?case
  proof (cases "search propNameRegex s")
    case None
    then show ?thesis by (simp add: matchPropNames.simps[of s])
  next
    case (Some x)
    obtain i caps n where x: "x = (i, caps, n)" by (cases x)
    have eq: "matchPropNames s = take n (drop i s) # matchPropNames (drop (i + n) s)"
      by (simp add: matchPropNames.simps[of s] Some x)
    from search_hit[OF Some[unfolded x]] obtain w where w: "\<forall>x \<in> set w. isWord x"
      "take n (drop i s) = w @ ''?:'' \<or> take n (drop i s) = w @ '':''"
      by (rule propName_hit)
    have first: "filter (\<lambda>c. c \<noteq> CHR ''?'' \<and> c \<noteq> CHR '':'') (take n (drop i s)) = w"
      using w(2) strip_prop_name[OF w(1)] by auto
    have "prefix w (take n (drop i s))" using w(2) by auto
    then have "sublist w (take n (drop i s))" by (rule prefix_imp_sublist)
    also have "sublist (take n (drop i s)) (drop i s)" by (rule sublist_take)
    also have "sublist (drop i s) s" by (rule sublist_drop)
    finally have sw: "sublist w s" .
    have rest: "\<forall>p \<in> set (map (filter (\<lambda>c. c \<noteq> CHR ''?'' \<and> c \<noteq> CHR '':''))
        (matchPropNames (drop (i + n) s))). sublist p s"
    proof
      fix p assume "p \<in> set (map (filter (\<lambda>c. c \<noteq> CHR ''?'' \<and> c \<noteq> CHR '':''))
        (matchPropNames (drop (i + n) s)))"
      with "1.IH"[OF Some x[symmetric] refl] have "sublist p (drop (i + n) s)" by blast
      also have "sublist (drop (i + n) s) s" by (rule sublist_drop)
      finally show "sublist p s" .
    qed
    show ?thesis unfolding eq using first sw rest by simp
  qed
qed

section \<open>Claims about the component extractor\<close>

text \<open>
  C9: for the react framework, a file whose content has a bare function declaration
  (\<open>function\<close>, white space, a name, optional white space, an opening parenthesis) and
  nowhere the word \<open>export\<close> is detected as a component, and the record's list of exports is
  empty.
\<close>

theorem unexported_function_detected_with_no_exports:
  assumes "content = before @ ''function'' @ ws @ nm @ ws' @ ''('' @ after"
    and "ws \<noteq> []" and "\<forall>c \<in> set ws. isSpace c"
    and "nm \<noteq> []" and "\<forall>c \<in> set nm. isWord c"
    and "\<forall>c \<in> set ws'. isSpace c"
    and "\<not> sublist ''export'' content"
  shows "\<exists>info. extractComponentInfo filePath content React = Some info \<and> cc_exports info = []"
proof -
  have d: "drop (length before) content = ''function'' @ ws @ nm @ ws' @ ''('' @ after"
    and l: "length before \<le> length content"
    unfolding assms(1) by simp_all
  have m: "patterns React (drop (length before) content) \<noteq> []"
    unfolding d by (rule bare_function_matches[OF assms(2-6)])
  have "search (patterns React) content \<noteq> None"
  proof
    assume "search (patterns React) content = None"
    then have "\<forall>i \<le> length content. patterns React (drop i content) = []"
      by (simp only: search_None_iff)
    with l have "patterns React (drop (length before) content) = []" by blast
    with m show False by contradiction
  qed
  then have "regex_test (patterns React) content" by (simp add: regex_test_def)
  then show ?thesis
    using no_export_no_exports[OF assms(7)]
    by (simp add: extractComponentInfo_def Let_def)
qed

theorem unexported_function_detected_with_no_exports_witness:
  "\<not> sublist ''export'' ''function Button (p) { return 1 }'' \<and>
   (\<exists>info. extractComponentInfo ''src/Button.tsx'' ''function Button (p) { return 1 }'' React
             = Some info \<and> cc_exports info = [])"
proof -
  have c: "''function Button (p) { return 1 }'' =
           [] @ ''function'' @ '' '' @ ''Button'' @ '' '' @ ''('' @ ''p) { return 1 }''"
    by simp
  have s: "'' '' \<noteq> []" "\<forall>c \<in> set '' ''. isSpace c" by (simp_all add: isSpace_def)
  have w: "''Button'' \<noteq> []" "\<forall>c \<in> set ''Button''. isWord c" by (simp_all add: isWord_def)
  have n: "\<not> sublist ''export'' ''function Button (p) { return 1 }''" by code_simp
  from unexported_function_detected_with_no_exports[OF c s w s(2) n, of "''src/Button.tsx''"] n
  show ?thesis by (intro conjI)
qed

text \<open>
  C10, as stated: for the react framework the props come from the first interface or type
  declaration whose name ends in \<open>Props\<close>, and a property name that occurs only in a later
  declaration is absent from the list. The pattern wants the opening brace straight after
  the name and a body that is not empty: in the file below the first declaration, a type
  alias written with \<open>=\<close>, is not matched, and the props are those of the second one.
\<close>

theorem props_from_first_declaration_counterexample:
  "extractProps ''type AProps = { a: string }; interface BProps { b: number }'' React = [''b''] \<and>
   search propsRegex ''type AProps = { a: string }; interface BProps { b: number }'' =
     Some (29, ['' b: number ''], 30)"
  by code_simp

text \<open>
  C10, amended: for the react framework the props come from the leftmost match of the
  pattern only (\<open>interface\<close> or \<open>type\<close>, white space, a name ending in \<open>Props\<close>, optional
  white space, an opening brace, a non-empty body without a closing brace, a closing
  brace). The props are the stripped name tokens of that match's body, each of them a
  piece of that body, and whatever follows the match in the file, further declarations
  included, leaves the list unchanged.
\<close>

theorem props_only_from_leftmost_match:
  assumes "search propsRegex content = Some (i, caps, n)"
  shows "(\<exists>head body.
            caps = [body] \<and> take n (drop i content) = head @ ''{'' @ body @ ''}'' \<and>
            extractProps content React =
              map (filter (\<lambda>c. c \<noteq> CHR ''?'' \<and> c \<noteq> CHR '':'')) (matchPropNames body) \<and>
            (\<forall>p \<in> set (extractProps content React). sublist p body)) \<and>
         (\<forall>rest. extractProps (take (i + n) content @ rest) React = extractProps content React)"
proof -
  from search_hit[OF assms] propsRegex_braces obtain head body where
    b: "caps = [body]" "take n (drop i content) = head @ ''{'' @ body @ ''}''"
    unfolding braces_def braced_def by blast
  have e: "extractProps content React =
      map (filter (\<lambda>c. c \<noteq> CHR ''?'' \<and> c \<noteq> CHR '':'')) (matchPropNames body)"
    by (simp add: extractProps_def assms b(1) matchPropNames_or_null_def Let_def)
  have s: "\<forall>p \<in> set (extractProps content React). sublist p body"
    unfolding e by (rule prop_names_are_sublists)
  have r: "extractProps (take (i + n) content @ rest) React = extractProps content React" for rest
    using first_props_declaration_decides[OF assms, of rest] assms
    by (simp add: extractProps_def)
  from b e s r show ?thesis by blast
qed

theorem props_only_from_leftmost_match_witness:
  "extractProps ''interface AProps { a: string } type BProps { b?: number }'' React = [''a''] \<and>
   ''b'' \<notin> set (extractProps ''interface AProps { a: string } type BProps { b?: number }'' React) \<and>
   extractProps (''interface AProps { a: string }'' @ '' type BProps { b?: number }'') React =
     extractProps ''interface AProps { a: string } type BProps { b?: number }'' React"
proof -
  let ?content = "''interface AProps { a: string } type BProps { b?: number }''"
  have f: "search propsRegex ?content = Some (0, ['' a: string ''], 30)" by code_simp
  have m: "map (filter (\<lambda>c. c \<noteq> CHR ''?'' \<and> c \<noteq> CHR '':'')) (matchPropNames '' a: string '') = [''a'']"
    by code_simp
  from props_only_from_leftmost_match[OF f] m
  have 1: "extractProps ?content React = [''a'']" by auto
  from props_only_from_leftmost_match[OF f]
  have "extractProps (take (0 + 30) ?content @ '' type BProps { b?: number }'') React =
        extractProps ?content React" by blast
  then have 2: "extractProps (''interface AProps { a: string }'' @ '' type BProps { b?: number }'') React =
     extractProps ?content React" by simp
  from 1 2 show ?thesis by simp
qed

end
